theory Spec2Isabelle
  imports Complex_Main "HOL-Library.Multiset"
begin

section \<open>Geometry: the axis-aligned rectangle of rstar\_tree.py\<close>

text \<open>
  Coordinates are Python floats in the source. They are modelled as exact rationals:
  comparisons, \<open>min\<close> and \<open>max\<close> are exact on floats as well, the rounding of the
  products and differences in \<open>area\<close> and in the ranking key of the forced reinsertion
  is not modelled.
\<close>

datatype error = AssertionError | AttributeError | TypeError

record rect =
  x1 :: rat
  y1 :: rat
  x2 :: rat
  y2 :: rat

text \<open>\<open>Rect.__init__\<close>: the two corners are normalised.\<close>

definition Rect :: "rat \<Rightarrow> rat \<Rightarrow> rat \<Rightarrow> rat \<Rightarrow> rect" where
  "Rect a b c d = \<lparr>x1 = min a c, y1 = min b d, x2 = max a c, y2 = max b d\<rparr>"

definition area :: "rect \<Rightarrow> rat" where
  "area r = max 0 (x2 r - x1 r) * max 0 (y2 r - y1 r)"

definition enlarge :: "rect \<Rightarrow> rect \<Rightarrow> rect" where
  "enlarge r other =
     Rect (min (x1 r) (x1 other)) (min (y1 r) (y1 other))
          (max (x2 r) (x2 other)) (max (y2 r) (y2 other))"

definition intersects :: "rect \<Rightarrow> rect \<Rightarrow> bool" where
  "intersects r other =
     (\<not> (x2 r < x1 other \<or> x1 r > x2 other \<or> y2 r < y1 other \<or> y1 r > y2 other))"

text \<open>\<open>make_point_rect(*args)\<close>: the argument tuple is a list.\<close>

fun make_point_rect :: "rat list \<Rightarrow> error + rect" where
  "make_point_rect [x, y] = Inr (Rect x y x y)"
| "make_point_rect [x, y, sz] = Inr (Rect x y (x + sz) (y + sz))"
| "make_point_rect [xa, ya, xb, yb] = Inr (Rect xa ya xb yb)"
| "make_point_rect args = Inl TypeError"

section \<open>Nodes and the store\<close>

text \<open>
  Nodes are Python objects that refer to each other (an entry of an internal node holds
  its child, a node holds its parent), and the code mutates them in place. The model keeps
  them in a store, a list of nodes, where the address of a node is its index; \<open>Node(...)\<close>
  appends a node. A Python reference always denotes an object, so the model reads the
  store with \<open>!\<close> and the theorems carry the facts that keep the addresses in range.

  The second component of an entry is, in the source, a payload (leaf) or a child node
  (internal node). \<open>Data i p\<close> is the payload \<open>p\<close>; \<open>i\<close> is the identity of the
  \<open>Rect\<close> object the payload was inserted with. The class \<open>Rect\<close> defines no
  \<open>__eq__\<close>, so that the comparison of entries \<open>e not in to_reinsert\<close> of
  \<open>_forced_reinsert_once\<close> holds two entries equal when they hold the same \<open>Rect\<close>
  object and equal payloads. The rectangles of internal entries are never compared.
\<close>

type_synonym addr = nat

datatype 'p slot = Data nat 'p | Child addr

type_synonym 'p entry = "rect \<times> 'p slot"

record 'p node =
  leaf :: bool
  entries :: "'p entry list"
  parent :: "addr option"

definition Node :: "bool \<Rightarrow> 'p node" where
  "Node lf = \<lparr>leaf = lf, entries = [], parent = None\<rparr>"

definition set_parent :: "'p node list \<Rightarrow> 'p slot \<Rightarrow> addr \<Rightarrow> 'p node list" where
  "set_parent h c p =
     (case c of Child a \<Rightarrow> h[a := (h ! a)\<lparr>parent := Some p\<rparr>] | Data i d \<Rightarrow> h)"

text \<open>\<open>Node.add\<close>: a child node gets its parent pointer, then the entry is appended.\<close>

definition Node_add :: "'p node list \<Rightarrow> addr \<Rightarrow> rect \<Rightarrow> 'p slot \<Rightarrow> 'p node list" where
  "Node_add h a r c =
     (let h1 = set_parent h c a
      in h1[a := (h1 ! a)\<lparr>entries := entries (h1 ! a) @ [(r, c)]\<rparr>])"

text \<open>\<open>Node.mbr\<close>: the assertion fails on a node without entries.\<close>

definition Node_mbr :: "'p node \<Rightarrow> error + rect" where
  "Node_mbr nd =
     (case entries nd of
        [] \<Rightarrow> Inl AssertionError
      | e # es \<Rightarrow> Inr (foldl enlarge (fst e) (map fst es)))"

section \<open>The base index\<close>

record 'p rtree =
  max_entries :: int
  root :: addr
  node_visits :: nat
  heap :: "'p node list"

text \<open>
  \<open>RTree.__init__\<close> stores the capacity as it is given; the result type has room for
  a failure of the constructor, which the source never raises.
\<close>

definition RTree_init :: "int \<Rightarrow> error + 'p rtree" where
  "RTree_init m = Inr \<lparr>max_entries = m, root = 0, node_visits = 0, heap = [Node True]\<rparr>"

definition reset :: "('p, 'z) rtree_scheme \<Rightarrow> ('p, 'z) rtree_scheme" where
  "reset t = t\<lparr>node_visits := 0\<rparr>"

definition visit :: "('p, 'z) rtree_scheme \<Rightarrow> ('p, 'z) rtree_scheme" where
  "visit t = t\<lparr>node_visits := node_visits t + 1\<rparr>"

text \<open>
  A call that does not return has the value \<open>None\<close>, one that raises \<open>Some (Inl e)\<close>,
  one that returns \<open>Some (Inr v)\<close>. \<open>for_loop\<close> runs a loop body over a list, threading
  the loop's variables.
\<close>

primrec for_loop ::
  "'a list \<Rightarrow> ('a \<Rightarrow> 's \<Rightarrow> (error + 's) option) \<Rightarrow> 's \<Rightarrow> (error + 's) option" where
  "for_loop [] body s = Some (Inr s)"
| "for_loop (x # xs) body s =
     Option.bind (body x s)
       (\<lambda>r. case r of Inl e \<Rightarrow> Some (Inl e) | Inr s' \<Rightarrow> for_loop xs body s')"

lemma for_loop_mono [partial_function_mono]:
  assumes "\<And>x s. mono_option (\<lambda>f. body f x s)"
  shows "mono_option (\<lambda>f. for_loop xs (body f) s)"
proof (induction xs arbitrary: s)
  case Nil
  show ?case by (simp add: option.const_mono)
next
  case (Cons x xs)
  show ?case
    unfolding for_loop.simps
  proof (rule bind_mono [OF assms])
    fix r :: "error + 'b"
    show "mono_option (\<lambda>f. case r of Inl e \<Rightarrow> Some (Inl e) | Inr s' \<Rightarrow> for_loop xs (body f) s')"
      by (cases r) (simp_all add: option.const_mono Cons)
  qed
qed

partial_function (option) range_query ::
  "('p, 'z) rtree_scheme \<Rightarrow> rect \<Rightarrow> addr option
     \<Rightarrow> (error + 'p slot list \<times> ('p, 'z) rtree_scheme) option" where
  "range_query t rect node_opt =
     (let node = (case node_opt of None \<Rightarrow> root t | Some n \<Rightarrow> n)
      in for_loop (entries (heap t ! node))
           (\<lambda>(r, c) (out, t').
              if \<not> intersects rect r then Some (Inr (out, t'))
              else if leaf (heap t ! node) then Some (Inr (out @ [c], t'))
              else (case c of
                      Data i d \<Rightarrow> Some (Inl AttributeError)
                    | Child ch \<Rightarrow>
                        Option.bind (range_query t' rect (Some ch))
                          (\<lambda>r. case r of
                                 Inl e \<Rightarrow> Some (Inl e)
                               | Inr (res, t'') \<Rightarrow> Some (Inr (out @ res, t'')))))
           ([], visit t))"

text \<open>
  \<open>choose_leaf\<close>: the loop over the entries of an internal node keeps the first entry
  of least key; Python compares the key pairs lexicographically. On a node without
  entries the loop leaves \<open>best_child = None\<close>, and the recursive call raises.
\<close>

definition key_less :: "rat \<times> rat \<Rightarrow> rat \<times> rat \<Rightarrow> bool" where
  "key_less k k' = (fst k < fst k' \<or> (fst k = fst k' \<and> snd k < snd k'))"

definition best_child :: "'p entry list \<Rightarrow> rect \<Rightarrow> 'p slot option" where
  "best_child es rect =
     map_option snd
       (foldl (\<lambda>best (r, child).
                 let inc = area (enlarge r rect) - area r;
                     key = (inc, area r)
                 in case best of
                      None \<Rightarrow> Some (key, child)
                    | Some (best_key, c) \<Rightarrow>
                        if key_less key best_key then Some (key, child) else best)
          None es)"

partial_function (option) choose_leaf ::
  "('p, 'z) rtree_scheme \<Rightarrow> addr \<Rightarrow> rect \<Rightarrow> (error + addr) option" where
  "choose_leaf t node rect =
     (if leaf (heap t ! node) then Some (Inr node)
      else case best_child (entries (heap t ! node)) rect of
             Some (Child c) \<Rightarrow> choose_leaf t c rect
           | _ \<Rightarrow> Some (Inl AttributeError))"

text \<open>
  \<open>split_node\<close>: the entries are cut at \<open>half\<close>; the new node is allocated at the end
  of the store and its address is returned. For an internal node the children of both
  halves get their parent pointers.
\<close>

definition set_parents :: "'p node list \<Rightarrow> 'p entry list \<Rightarrow> addr \<Rightarrow> 'p node list" where
  "set_parents h es p = foldl (\<lambda>h' (r, child). set_parent h' child p) h es"

definition split_node ::
  "('p, 'z) rtree_scheme \<Rightarrow> addr \<Rightarrow> ('p, 'z) rtree_scheme \<times> addr" where
  "split_node t node =
     (let h = heap t;
          half = max 1 (length (entries (h ! node)) div 2);
          new_node = length h;
          h1 = h @ [Node (leaf (h ! node))];
          right_half = drop half (entries (h1 ! node));
          h2 = h1[node := (h1 ! node)\<lparr>entries := take half (entries (h1 ! node))\<rparr>];
          h3 = h2[new_node := (h2 ! new_node)\<lparr>entries := right_half\<rparr>];
          h4 = (if \<not> leaf (h3 ! node)
                then set_parents (set_parents h3 (entries (h3 ! node)) node)
                       (entries (h3 ! new_node)) new_node
                else h3)
      in (t\<lparr>heap := h4\<rparr>, new_node))"

text \<open>
  \<open>adjust_after_split\<close>. At the root, \<open>new_root\<close> is allocated and takes the two
  halves; elsewhere the new node goes to the parent, and the call recurses while the
  parent overflows. \<open>parent.add\<close> on a node whose parent is \<open>None\<close> raises.
\<close>

definition new_root_over ::
  "('p, 'z) rtree_scheme \<Rightarrow> addr \<Rightarrow> addr \<Rightarrow> error + ('p, 'z) rtree_scheme" where
  "new_root_over t node new_node =
     (let new_root = length (heap t);
          h = heap t @ [Node False]
      in case Node_mbr (h ! node) of
           Inl e \<Rightarrow> Inl e
         | Inr m \<Rightarrow>
             let h1 = Node_add h new_root m (Child node)
             in (case Node_mbr (h1 ! new_node) of
                   Inl e \<Rightarrow> Inl e
                 | Inr m' \<Rightarrow>
                     let h2 = Node_add h1 new_root m' (Child new_node);
                         h3 = h2[node := (h2 ! node)\<lparr>parent := Some new_root\<rparr>];
                         h4 = h3[new_node := (h3 ! new_node)\<lparr>parent := Some new_root\<rparr>]
                     in Inr (t\<lparr>heap := h4, root := new_root\<rparr>)))"

partial_function (option) adjust_after_split ::
  "('p, 'z) rtree_scheme \<Rightarrow> addr \<Rightarrow> (error + ('p, 'z) rtree_scheme) option" where
  "adjust_after_split t node =
     (case split_node t node of
        (t1, new_node) \<Rightarrow>
          if node = root t1 then Some (new_root_over t1 node new_node)
          else (case parent (heap t1 ! node) of
                  None \<Rightarrow> Some (Inl AttributeError)
                | Some p \<Rightarrow>
                    (case Node_mbr (heap t1 ! new_node) of
                       Inl e \<Rightarrow> Some (Inl e)
                     | Inr m \<Rightarrow>
                         let t2 = t1\<lparr>heap := Node_add (heap t1) p m (Child new_node)\<rparr>
                         in if int (length (entries (heap t2 ! p))) > max_entries t2
                            then adjust_after_split t2 p
                            else Some (Inr t2))))"

text \<open>
  \<open>RTree.insert\<close>. The payload position of the source takes any Python value; the
  callers of the index pass \<open>Data i d\<close>.
\<close>

definition RTree_insert ::
  "('p, 'z) rtree_scheme \<Rightarrow> rect \<Rightarrow> 'p slot \<Rightarrow> (error + ('p, 'z) rtree_scheme) option" where
  "RTree_insert t rect data =
     Option.bind (choose_leaf t (root t) rect)
       (\<lambda>r. case r of
              Inl e \<Rightarrow> Some (Inl e)
            | Inr lf \<Rightarrow>
                let t1 = t\<lparr>heap := Node_add (heap t) lf rect data\<rparr>
                in if int (length (entries (heap t1 ! lf))) > max_entries t1
                   then adjust_after_split t1 lf
                   else Some (Inr t1))"

text \<open>
  \<open>_bubble_up_mbr\<close>: the loop climbs while the node has a parent, and replaces the
  rectangle of the first entry of the parent that holds the node.
\<close>

fun replace_first :: "addr \<Rightarrow> rect \<Rightarrow> 'p entry list \<Rightarrow> 'p entry list" where
  "replace_first node new_m [] = []"
| "replace_first node new_m ((r, c) # es) =
     (if c = Child node then (new_m, c) # es else (r, c) # replace_first node new_m es)"

partial_function (option) bubble_up_mbr ::
  "('p, 'z) rtree_scheme \<Rightarrow> addr \<Rightarrow> (error + ('p, 'z) rtree_scheme) option" where
  "bubble_up_mbr t node =
     (case parent (heap t ! node) of
        None \<Rightarrow> Some (Inr t)
      | Some p \<Rightarrow>
          (case Node_mbr (heap t ! node) of
             Inl e \<Rightarrow> Some (Inl e)
           | Inr new_m \<Rightarrow>
               bubble_up_mbr
                 (t\<lparr>heap := (heap t)[p := (heap t ! p)
                      \<lparr>entries := replace_first node new_m (entries (heap t ! p))\<rparr>]\<rparr>) p))"

section \<open>The reinsertion variant\<close>

record 'p rstartree = "'p rtree" +
  reinsertion_ratio :: rat

definition RStarTree_init :: "int \<Rightarrow> rat \<Rightarrow> error + 'p rstartree" where
  "RStarTree_init m ratio =
     Inr \<lparr>max_entries = m, root = 0, node_visits = 0, heap = [Node True],
          reinsertion_ratio = ratio\<rparr>"

text \<open>Python's \<open>round\<close> rounds a half to the even neighbour.\<close>

definition py_round :: "rat \<Rightarrow> int" where
  "py_round x =
     (let f = \<lfloor>x\<rfloor>; d = x - of_int f
      in if d < 1 / 2 then f else if 1 / 2 < d then f + 1
         else if even f then f else f + 1)"

text \<open>
  The eviction of \<open>_forced_reinsert_once\<close>, from \<open>m = node.mbr()\<close> to \<open>keep\<close>:
  \<open>sorted\<close> is stable, also with \<open>reverse=True\<close>, as \<open>sort_key\<close> is on the negated
  key. The result is \<open>(to_reinsert, keep)\<close>.
\<close>

definition rank_key :: "rat \<Rightarrow> rat \<Rightarrow> 'p entry \<Rightarrow> rat" where
  "rank_key cx cy rc =
     ((x1 (fst rc) + x2 (fst rc)) / 2 - cx)\<^sup>2 + ((y1 (fst rc) + y2 (fst rc)) / 2 - cy)\<^sup>2"

definition evict :: "rat \<Rightarrow> rect \<Rightarrow> 'p entry list \<Rightarrow> 'p entry list \<times> 'p entry list" where
  "evict ratio m es =
     (let cx = (x1 m + x2 m) / 2;
          cy = (y1 m + y2 m) / 2;
          ranked = sort_key (\<lambda>rc. - rank_key cx cy rc) es;
          k = max 1 (py_round (ratio * of_nat (length es)));
          k' = min k (int (length es) - 1);
          to_reinsert = take (nat k') ranked;
          keep = filter (\<lambda>e. e \<notin> set to_reinsert) es
      in (to_reinsert, keep))"

definition forced_reinsert_once ::
  "'p rstartree \<Rightarrow> addr \<Rightarrow> (error + 'p rstartree) option" where
  "forced_reinsert_once t node =
     (let es = entries (heap t ! node)
      in if int (length es) \<le> max_entries t then Some (Inr t)
         else case Node_mbr (heap t ! node) of
                Inl e \<Rightarrow> Some (Inl e)
              | Inr m \<Rightarrow>
                  (case evict (reinsertion_ratio t) m es of
                     (to_reinsert, keep) \<Rightarrow>
                       Option.bind
                         (for_loop to_reinsert (\<lambda>(r, payload) t'. RTree_insert t' r payload)
                            (t\<lparr>heap := (heap t)[node := (heap t ! node)\<lparr>entries := keep\<rparr>]\<rparr>))
                         (\<lambda>r. case r of
                                Inl e \<Rightarrow> Some (Inl e)
                              | Inr t2 \<Rightarrow> bubble_up_mbr t2 node)))"

definition RStarTree_insert ::
  "'p rstartree \<Rightarrow> rect \<Rightarrow> 'p slot \<Rightarrow> (error + 'p rstartree) option" where
  "RStarTree_insert t rect data =
     Option.bind (choose_leaf t (root t) rect)
       (\<lambda>r. case r of
              Inl e \<Rightarrow> Some (Inl e)
            | Inr lf \<Rightarrow>
                let t1 = t\<lparr>heap := Node_add (heap t) lf rect data\<rparr>
                in Option.bind
                     (if int (length (entries (heap t1 ! lf))) > max_entries t1
                      then forced_reinsert_once t1 lf else Some (Inr t1))
                     (\<lambda>r. case r of
                            Inl e \<Rightarrow> Some (Inl e)
                          | Inr t2 \<Rightarrow>
                              if int (length (entries (heap t2 ! lf))) > max_entries t2
                              then adjust_after_split t2 lf
                              else bubble_up_mbr t2 lf))"

declare range_query.simps [code]
declare choose_leaf.simps [code]
declare adjust_after_split.simps [code]
declare bubble_up_mbr.simps [code]

section \<open>Runs of the index and what is observed of a tree\<close>

text \<open>
  A caller's sequence of \<open>insert(rect, payload)\<close> calls. An element \<open>(i, r, d)\<close> is
  the call with the \<open>Rect\<close> object of identity \<open>i\<close> and coordinates \<open>r\<close>, and the
  payload \<open>d\<close>. A call that raises ends the run.
\<close>

definition RTree_inserts ::
  "('p, 'z) rtree_scheme \<Rightarrow> (nat \<times> rect \<times> 'p) list
     \<Rightarrow> (error + ('p, 'z) rtree_scheme) option" where
  "RTree_inserts t xs = for_loop xs (\<lambda>(i, r, d) t'. RTree_insert t' r (Data i d)) t"

definition RStarTree_inserts ::
  "'p rstartree \<Rightarrow> (nat \<times> rect \<times> 'p) list \<Rightarrow> (error + 'p rstartree) option" where
  "RStarTree_inserts t xs = for_loop xs (\<lambda>(i, r, d) t'. RStarTree_insert t' r (Data i d)) t"

text \<open>The nodes reachable from the root along the entries of internal nodes.\<close>

inductive_set reachable :: "('p, 'z) rtree_scheme \<Rightarrow> addr set"
  for t :: "('p, 'z) rtree_scheme" where
  root: "root t \<in> reachable t"
| child: "a \<in> reachable t \<Longrightarrow> (r, Child c) \<in> set (entries (heap t ! a)) \<Longrightarrow> c \<in> reachable t"

text \<open>
  The nodes a window query enters below (and including) a node, in the order of the
  traversal: a child is entered when the rectangle of its entry intersects the window.
\<close>

partial_function (option) nodes_entered ::
  "'p node list \<Rightarrow> rect \<Rightarrow> addr \<Rightarrow> (error + addr list) option" where
  "nodes_entered h rect node =
     for_loop (entries (h ! node))
       (\<lambda>(r, c) ns.
          if \<not> intersects rect r then Some (Inr ns)
          else if leaf (h ! node) then Some (Inr ns)
          else (case c of
                  Data i d \<Rightarrow> Some (Inl AttributeError)
                | Child ch \<Rightarrow>
                    Option.bind (nodes_entered h rect ch)
                      (\<lambda>r. case r of
                             Inl e \<Rightarrow> Some (Inl e)
                           | Inr ms \<Rightarrow> Some (Inr (ns @ ms)))))
       [node]"

text \<open>The entries of the leaves below a node, from left to right.\<close>

partial_function (option) leaf_entries ::
  "'p node list \<Rightarrow> addr \<Rightarrow> (error + 'p entry list) option" where
  "leaf_entries h node =
     (if leaf (h ! node) then Some (Inr (entries (h ! node)))
      else for_loop (entries (h ! node))
             (\<lambda>(r, c) es.
                case c of
                  Data i d \<Rightarrow> Some (Inl AttributeError)
                | Child ch \<Rightarrow>
                    Option.bind (leaf_entries h ch)
                      (\<lambda>r. case r of
                             Inl e \<Rightarrow> Some (Inl e)
                           | Inr es' \<Rightarrow> Some (Inr (es @ es'))))
             [])"

declare nodes_entered.simps [code]
declare leaf_entries.simps [code]

section \<open>The calls of an insertion\<close>

text \<open>
  The insertion path once more, with the calls it makes. Each of \<open>RStarTree.insert\<close>,
  \<open>_forced_reinsert_once\<close>, \<open>RTree.insert\<close> and \<open>adjust_after_split\<close> returns its
  outcome together with the calls of these four methods from its entry on, itself first,
  in the order in which they are entered; a call that raises keeps the calls made so far.
  The other methods of the path, \<open>choose_leaf\<close>, \<open>split_node\<close>, \<open>_bubble_up_mbr\<close>,
  \<open>Node.add\<close> and \<open>Node.mbr\<close>, call none of the four. \<open>super().insert\<close> is
  \<open>RTree.insert\<close>, and the class \<open>RStarTree\<close> overrides none of the methods that
  \<open>RTree.insert\<close> calls on \<open>self\<close>.
\<close>

datatype 'p call =
    Call_RStarTree_insert rect "'p slot"
  | Call_forced_reinsert_once addr
  | Call_RTree_insert rect "'p slot"
  | Call_adjust_after_split addr







text \<open>
  What a list of calls holds: the nodes of the forced-reinsertion passes, the entries
  handed to \<open>RTree.insert\<close>, and the entries handed to \<open>RStarTree.insert\<close>.
\<close>

fun forced_passes :: "'p call list \<Rightarrow> addr list" where
  "forced_passes [] = []"
| "forced_passes (Call_forced_reinsert_once node # cs) = node # forced_passes cs"
| "forced_passes (c # cs) = forced_passes cs"

fun base_inserts :: "'p call list \<Rightarrow> 'p entry list" where
  "base_inserts [] = []"
| "base_inserts (Call_RTree_insert r c # cs) = (r, c) # base_inserts cs"
| "base_inserts (c # cs) = base_inserts cs"

fun rstar_inserts :: "'p call list \<Rightarrow> 'p entry list" where
  "rstar_inserts [] = []"
| "rstar_inserts (Call_RStarTree_insert r c # cs) = (r, c) # rstar_inserts cs"
| "rstar_inserts (c # cs) = rstar_inserts cs"

section \<open>The shape of the store and the states of a run\<close>

text \<open>
  The payloads and child addresses that a node holds.
\<close>

definition slots :: "'p node \<Rightarrow> 'p slot set" where
  "slots nd = snd ` set (entries nd)"

text \<open>
  The shape of the store that the index maintains, stated with a level for each node:
  the root is allocated; along an entry of an internal node the level decreases, along
  a parent pointer it increases, and no level exceeds that of the root; a node with a
  child entry is internal and one with a data entry is a leaf. The descents
  (\<open>choose_leaf\<close>, \<open>range_query\<close>) and the ascents (\<open>adjust_after_split\<close>,
  \<open>_bubble_up_mbr\<close>) return on such a store.
\<close>

definition wf_lvl :: "(addr \<Rightarrow> nat) \<Rightarrow> ('p, 'z) rtree_scheme \<Rightarrow> bool" where
  "wf_lvl lvl t \<longleftrightarrow>
     root t < length (heap t) \<and>
     (\<forall>a < length (heap t).
        lvl a \<le> lvl (root t) \<and>
        (\<forall>c. Child c \<in> slots (heap t ! a) \<longrightarrow>
           c < length (heap t) \<and> lvl c < lvl a \<and> \<not> leaf (heap t ! a)) \<and>
        (\<forall>p. parent (heap t ! a) = Some p \<longrightarrow>
           p < length (heap t) \<and> lvl a < lvl p \<and> \<not> leaf (heap t ! p)) \<and>
        (\<forall>i d. Data i d \<in> slots (heap t ! a) \<longrightarrow> leaf (heap t ! a)))"

text \<open>
  The fields that an insertion leaves alone; the store only grows.
\<close>

definition same_frame :: "('p, 'z) rtree_scheme \<Rightarrow> ('p, 'z) rtree_scheme \<Rightarrow> bool" where
  "same_frame t t' \<longleftrightarrow>
     max_entries t' = max_entries t \<and> node_visits t' = node_visits t \<and>
     rtree.more t' = rtree.more t \<and> length (heap t) \<le> length (heap t')"

text \<open>
  No node holds more than \<open>max_entries\<close> entries; and the same with one node that may
  hold one more, which is the store between \<open>Node.add\<close> and the repair of the overflow.
\<close>

definition capacity :: "('p, 'z) rtree_scheme \<Rightarrow> bool" where
  "capacity t \<longleftrightarrow>
     (\<forall>a < length (heap t). int (length (entries (heap t ! a))) \<le> max_entries t)"

definition capacity_but :: "('p, 'z) rtree_scheme \<Rightarrow> addr \<Rightarrow> bool" where
  "capacity_but t node \<longleftrightarrow>
     (\<forall>a < length (heap t).
        int (length (entries (heap t ! a)))
          \<le> (if a = node then max_entries t + 1 else max_entries t))"

text \<open>
  The call returns, by a value that satisfies \<open>Q\<close> or by an exception.
\<close>

definition returns :: "(error + 'a) option \<Rightarrow> ('a \<Rightarrow> bool) \<Rightarrow> bool" where
  "returns r Q \<longleftrightarrow> (\<exists>res. r = Some res \<and> (\<forall>v. res = Inr v \<longrightarrow> Q v))"

text \<open>
  The indexes that a program can hold: constructed by \<open>RTree(m)\<close> or
  \<open>RStarTree(m, ratio)\<close> and changed by \<open>insert\<close> of a payload, \<open>range_query\<close> from the
  root and \<open>_reset\<close>, as long as no call raises.
\<close>

inductive rtree_state :: "'p rtree \<Rightarrow> bool" where
  init: "RTree_init m = Inr t \<Longrightarrow> rtree_state t"
| insert: "rtree_state t \<Longrightarrow> RTree_insert t rect (Data i d) = Some (Inr t') \<Longrightarrow> rtree_state t'"
| query: "rtree_state t \<Longrightarrow> range_query t w None = Some (Inr (out, t')) \<Longrightarrow> rtree_state t'"
| reset: "rtree_state t \<Longrightarrow> rtree_state (reset t)"

inductive rstartree_state :: "'p rstartree \<Rightarrow> bool" where
  init: "RStarTree_init m ratio = Inr t \<Longrightarrow> rstartree_state t"
| insert: "rstartree_state t \<Longrightarrow> RStarTree_insert t rect (Data i d) = Some (Inr t') \<Longrightarrow>
     rstartree_state t'"
| query: "rstartree_state t \<Longrightarrow> range_query t w None = Some (Inr (out, t')) \<Longrightarrow>
     rstartree_state t'"
| reset: "rstartree_state t \<Longrightarrow> rstartree_state (reset t)"

text \<open>
  What holds of every such index. The capacity bound needs \<open>max_entries\<close> of 2 or more:
  a new root holds two entries.
\<close>

definition state_inv :: "('p, 'z) rtree_scheme \<Rightarrow> bool" where
  "state_inv t \<longleftrightarrow> (\<exists>lvl. wf_lvl lvl t) \<and> (2 \<le> max_entries t \<longrightarrow> capacity t)"

section \<open>Example runs\<close>

text \<open>
  Six point rectangles with the payloads 0 to 5, inserted into a base index of capacity
  4, and the index after the six calls.
\<close>

definition six_points :: "(nat \<times> rect \<times> nat) list" where
  "six_points =
     [(0, Rect 0 0 0 0, 0), (1, Rect 1 1 1 1, 1), (2, Rect 2 2 2 2, 2),
      (3, Rect 3 3 3 3, 3), (4, Rect 4 4 4 4, 4), (5, Rect 10 10 10 10, 5)]"

definition six_tree :: "nat rtree" where
  "six_tree =
     \<lparr>max_entries = 4, root = 2, node_visits = 0,
      heap =
        [\<lparr>leaf = True,
          entries = [(Rect 0 0 0 0, Data 0 0), (Rect 1 1 1 1, Data 1 1)],
          parent = Some 2\<rparr>,
         \<lparr>leaf = True,
          entries = [(Rect 2 2 2 2, Data 2 2), (Rect 3 3 3 3, Data 3 3),
                     (Rect 4 4 4 4, Data 4 4), (Rect 10 10 10 10, Data 5 5)],
          parent = Some 2\<rparr>,
         \<lparr>leaf = False,
          entries = [(Rect 0 0 1 1, Child 0), (Rect 2 2 4 4, Child 1)],
          parent = None\<rparr>]\<rparr>"

text \<open>The base index of capacity 4 after the first five of the six insertions.\<close>

definition five_tree :: "nat rtree" where
  "five_tree =
     \<lparr>max_entries = 4, root = 2, node_visits = 0,
      heap =
        [\<lparr>leaf = True,
          entries = [(Rect 0 0 0 0, Data 0 0), (Rect 1 1 1 1, Data 1 1)],
          parent = Some 2\<rparr>,
         \<lparr>leaf = True,
          entries = [(Rect 2 2 2 2, Data 2 2), (Rect 3 3 3 3, Data 3 3),
                     (Rect 4 4 4 4, Data 4 4)],
          parent = Some 2\<rparr>,
         \<lparr>leaf = False,
          entries = [(Rect 0 0 1 1, Child 0), (Rect 2 2 4 4, Child 1)],
          parent = None\<rparr>]\<rparr>"

text \<open>
  A reinsertion-variant index of capacity 4 and ratio 0.3: as constructed, after the
  first four of the six insertions, with the fifth entry appended to its root, after
  the first five insertions, and after all six.
\<close>

definition rstar_4 :: "nat rstartree" where
  "rstar_4 = \<lparr>max_entries = 4, root = 0, node_visits = 0, heap = [Node True],
              reinsertion_ratio = 3 / 10\<rparr>"



definition rstar_five :: "nat rstartree" where
  "rstar_five =
     \<lparr>max_entries = 4, root = 2, node_visits = 0,
      heap =
        [\<lparr>leaf = True,
          entries = [(Rect 1 1 1 1, Data 1 1), (Rect 2 2 2 2, Data 2 2)],
          parent = Some 2\<rparr>,
         \<lparr>leaf = True,
          entries = [(Rect 3 3 3 3, Data 3 3), (Rect 0 0 0 0, Data 0 0),
                     (Rect 4 4 4 4, Data 4 4)],
          parent = Some 2\<rparr>,
         \<lparr>leaf = False,
          entries = [(Rect 1 1 2 2, Child 0), (Rect 0 0 4 4, Child 1)],
          parent = None\<rparr>],
      reinsertion_ratio = 3 / 10\<rparr>"

definition rstar_six :: "nat rstartree" where
  "rstar_six =
     \<lparr>max_entries = 4, root = 2, node_visits = 0,
      heap =
        [\<lparr>leaf = True,
          entries = [(Rect 1 1 1 1, Data 1 1), (Rect 2 2 2 2, Data 2 2),
                     (Rect 10 10 10 10, Data 5 5)],
          parent = Some 2\<rparr>,
         \<lparr>leaf = True,
          entries = [(Rect 3 3 3 3, Data 3 3), (Rect 0 0 0 0, Data 0 0),
                     (Rect 4 4 4 4, Data 4 4)],
          parent = Some 2\<rparr>,
         \<lparr>leaf = False,
          entries = [(Rect 1 1 10 10, Child 0), (Rect 0 0 4 4, Child 1)],
          parent = None\<rparr>],
      reinsertion_ratio = 3 / 10\<rparr>"

text \<open>The root of a base index of capacity 4 when its fifth entry has been appended.\<close>

definition five_leaf :: "nat rtree" where
  "five_leaf =
     \<lparr>max_entries = 4, root = 0, node_visits = 0,
      heap =
        [\<lparr>leaf = True,
          entries = [(Rect 0 0 0 0, Data 0 0), (Rect 1 1 1 1, Data 1 1), (Rect 2 2 2 2, Data 2 2),
                     (Rect 3 3 3 3, Data 3 3), (Rect 4 4 4 4, Data 4 4)],
          parent = None\<rparr>]\<rparr>"

text \<open>
  A reinsertion-variant index of capacity 2 and ratio 0.25, and three calls that insert
  one \<open>Rect\<close> object with the payload 0.
\<close>

definition same_rect_thrice :: "(nat \<times> rect \<times> nat) list" where
  "same_rect_thrice = [(7, Rect 0 0 0 0, 0), (7, Rect 0 0 0 0, 0), (7, Rect 0 0 0 0, 0)]"

definition rstar_2 :: "nat rstartree" where
  "rstar_2 = \<lparr>max_entries = 2, root = 0, node_visits = 0, heap = [Node True], reinsertion_ratio = 1 / 4\<rparr>"

section \<open>Rectangle construction and index construction\<close>

lemma make_point_rect_other:
  "length args \<noteq> 2 \<Longrightarrow> length args \<noteq> 3 \<Longrightarrow> length args \<noteq> 4 \<Longrightarrow> make_point_rect args = Inl TypeError"
  by (cases args rule: make_point_rect.cases) auto

text \<open>
  C8. \<open>make_point_rect\<close> returns a rectangle for two, three and four arguments and
  raises \<open>TypeError\<close> (the spec's ArityError) for every other number of arguments.
  Two arguments give the point rectangle; three give the rectangle with the opposite
  corners \<open>(x, y)\<close> and \<open>(x + size, y + size)\<close>, which for a size that is not
  negative is \<open>[x, x + size] \<times> [y, y + size]\<close>; four give the rectangle of the two
  corners, whatever their order.
\<close>

theorem make_point_rect_shapes:
  "make_point_rect [x, y] = Inr \<lparr>x1 = x, y1 = y, x2 = x, y2 = y\<rparr> \<and>
   make_point_rect [x, y, sz] =
     Inr \<lparr>x1 = min x (x + sz), y1 = min y (y + sz), x2 = max x (x + sz), y2 = max y (y + sz)\<rparr> \<and>
   (0 \<le> sz \<longrightarrow>
      make_point_rect [x, y, sz] = Inr \<lparr>x1 = x, y1 = y, x2 = x + sz, y2 = y + sz\<rparr>) \<and>
   make_point_rect [xa, ya, xb, yb] =
     Inr \<lparr>x1 = min xa xb, y1 = min ya yb, x2 = max xa xb, y2 = max ya yb\<rparr> \<and>
   make_point_rect [xb, yb, xa, ya] = make_point_rect [xa, ya, xb, yb] \<and>
   make_point_rect [xa, yb, xb, ya] = make_point_rect [xa, ya, xb, yb] \<and>
   (length args \<notin> {2, 3, 4} \<longrightarrow> make_point_rect args = Inl TypeError) \<and>
   (isl (make_point_rect args) \<longleftrightarrow> length args \<notin> {2, 3, 4})"
proof -
  have other: "length args \<notin> {2, 3, 4} \<longrightarrow> make_point_rect args = Inl TypeError"
    using make_point_rect_other [of args] by simp
  have isl: "isl (make_point_rect args) \<longleftrightarrow> length args \<notin> {2, 3, 4}"
    by (cases args rule: make_point_rect.cases) auto
  show ?thesis
    using other isl by (simp add: Rect_def min.commute max.commute)
qed

theorem make_point_rect_shapes_witness:
  "make_point_rect [1, 2] = Inr \<lparr>x1 = 1, y1 = 2, x2 = 1, y2 = 2\<rparr> \<and>
   (0::rat) \<le> 3 \<and>
   make_point_rect [1, 2, 3] = Inr \<lparr>x1 = 1, y1 = 2, x2 = 4, y2 = 5\<rparr> \<and>
   make_point_rect [4, 5, 1, 2] = Inr \<lparr>x1 = 1, y1 = 2, x2 = 4, y2 = 5\<rparr> \<and>
   length [1, 2, 3, 4, 5 :: rat] \<notin> {2, 3, 4} \<and>
   make_point_rect [1, 2, 3, 4, 5] = Inl TypeError \<and>
   make_point_rect [] = Inl TypeError"
  using make_point_rect_shapes [of 1 2 3 4 5 1 2 "[1, 2, 3, 4, 5]"]
    make_point_rect_shapes [of 1 2 3 4 5 1 2 "[]"]
  by simp

text \<open>
  C7, as the code has it. Neither constructor checks its arguments: for every capacity
  and every ratio the construction returns an index with an empty leaf as root, the
  counter at 0, and the capacity and the ratio as given.
\<close>

theorem construction_accepts_any_configuration:
  "RTree_init m =
     Inr \<lparr>max_entries = m, root = 0, node_visits = 0,
          heap = [\<lparr>leaf = True, entries = [], parent = None\<rparr>]\<rparr> \<and>
   RStarTree_init m ratio =
     Inr \<lparr>max_entries = m, root = 0, node_visits = 0,
          heap = [\<lparr>leaf = True, entries = [], parent = None\<rparr>], reinsertion_ratio = ratio\<rparr>"
  by (simp add: RTree_init_def RStarTree_init_def Node_def)

text \<open>
  C7 as stated fails: the capacity 1, the ratio 2 and the capacity 0 with ratio 0 are
  all accepted.
\<close>

theorem construction_unvalidated_counterexample:
  "\<not> isl (RTree_init 1 :: error + nat rtree) \<and>
   \<not> isl (RStarTree_init 8 2 :: error + nat rstartree) \<and>
   \<not> isl (RStarTree_init 0 0 :: error + nat rstartree)"
  by (simp add: RTree_init_def RStarTree_init_def)

section \<open>The linear split\<close>

lemma nth_list_update_any:
  "(h[a := x]) ! b = (if a = b \<and> a < length h then x else h ! b)"
  by (cases "a < length h") (auto simp: nth_list_update list_update_beyond)

lemma length_set_parent [simp]: "length (set_parent h c p) = length h"
  by (simp add: set_parent_def split: slot.split)

lemma entries_set_parent [simp]: "entries (set_parent h c p ! b) = entries (h ! b)"
  by (cases c) (auto simp: set_parent_def nth_list_update_any)

lemma leaf_set_parent [simp]: "leaf (set_parent h c p ! b) = leaf (h ! b)"
  by (cases c) (auto simp: set_parent_def nth_list_update_any)

lemma length_set_parents [simp]: "length (set_parents h es p) = length h"
  unfolding set_parents_def by (induction es arbitrary: h) (auto split: prod.split)

lemma entries_set_parents [simp]: "entries (set_parents h es p ! b) = entries (h ! b)"
  unfolding set_parents_def by (induction es arbitrary: h) (auto split: prod.split)

lemma leaf_set_parents [simp]: "leaf (set_parents h es p ! b) = leaf (h ! b)"
  unfolding set_parents_def by (induction es arbitrary: h) (auto split: prod.split)

lemma snd_split_node [simp]: "snd (split_node t node) = length (heap t)"
  by (simp add: split_node_def Let_def)

lemma length_heap_split_node [simp]:
  "length (heap (fst (split_node t node))) = Suc (length (heap t))"
  by (simp add: split_node_def Let_def)

lemma entries_split_node:
  "node < length (heap t) \<Longrightarrow> a \<le> length (heap t) \<Longrightarrow>
   entries (heap (fst (split_node t node)) ! a) =
     (if a = node
      then take (max 1 (length (entries (heap t ! node)) div 2)) (entries (heap t ! node))
      else if a = length (heap t)
      then drop (max 1 (length (entries (heap t ! node)) div 2)) (entries (heap t ! node))
      else entries (heap t ! a))"
  by (simp add: split_node_def Let_def nth_list_update_any nth_append Node_def)

lemma leaf_split_node:
  "node < length (heap t) \<Longrightarrow> a \<le> length (heap t) \<Longrightarrow>
   leaf (heap (fst (split_node t node)) ! a) =
     (if a = length (heap t) then leaf (heap t ! node) else leaf (heap t ! a))"
  by (simp add: split_node_def Let_def nth_list_update_any nth_append Node_def)

text \<open>
  C4, as the code has it. \<open>split_node\<close> cuts the \<open>n\<close> entries of a node at
  \<open>max 1 (n div 2)\<close>, the midpoint rounded down: the entries before the cut stay in
  the node, the others move, in order, to a new node of the same kind, allocated at the
  end of the store.
\<close>

theorem split_node_cut:
  assumes "node < length (heap t)" and "split_node t node = (t', new_node)"
  shows "new_node = length (heap t) \<and> length (heap t') = Suc (length (heap t)) \<and>
         entries (heap t' ! node) =
           take (max 1 (length (entries (heap t ! node)) div 2)) (entries (heap t ! node)) \<and>
         entries (heap t' ! new_node) =
           drop (max 1 (length (entries (heap t ! node)) div 2)) (entries (heap t ! node)) \<and>
         leaf (heap t' ! node) = leaf (heap t ! node) \<and>
         leaf (heap t' ! new_node) = leaf (heap t ! node)"
proof -
  have t': "t' = fst (split_node t node)" and new: "new_node = length (heap t)"
    using assms(2) snd_split_node [of t node] by simp_all
  show ?thesis
    using assms(1) by (simp add: t' new entries_split_node leaf_split_node)
qed

theorem split_node_cut_witness:
  "(0::nat) < length (heap five_leaf) \<and>
   split_node five_leaf 0 = (fst (split_node five_leaf 0), snd (split_node five_leaf 0)) \<and>
   snd (split_node five_leaf 0) = 1 \<and>
   entries (heap (fst (split_node five_leaf 0)) ! 0) =
     [(Rect 0 0 0 0, Data 0 0), (Rect 1 1 1 1, Data 1 1)] \<and>
   entries (heap (fst (split_node five_leaf 0)) ! snd (split_node five_leaf 0)) =
     [(Rect 2 2 2 2, Data 2 2), (Rect 3 3 3 3, Data 3 3), (Rect 4 4 4 4, Data 4 4)] \<and>
   leaf (heap (fst (split_node five_leaf 0)) ! snd (split_node five_leaf 0))"
proof -
  have a: "(0::nat) < length (heap five_leaf)"
    by (simp add: five_leaf_def)
  have b: "split_node five_leaf 0 = (fst (split_node five_leaf 0), snd (split_node five_leaf 0))"
    by (simp add: prod_eq_iff)
  have c: "length (heap five_leaf) = 1" "leaf (heap five_leaf ! 0)"
    by (simp_all add: five_leaf_def)
  have d: "take (max 1 (length (entries (heap five_leaf ! 0)) div 2)) (entries (heap five_leaf ! 0))
             = [(Rect 0 0 0 0, Data 0 0), (Rect 1 1 1 1, Data 1 1)]"
    by code_simp
  have e: "drop (max 1 (length (entries (heap five_leaf ! 0)) div 2)) (entries (heap five_leaf ! 0))
             = [(Rect 2 2 2 2, Data 2 2), (Rect 3 3 3 3, Data 3 3), (Rect 4 4 4 4, Data 4 4)]"
    by code_simp
  note cut = split_node_cut [OF a b]
  from cut c have n: "snd (split_node five_leaf 0) = 1"
    by simp
  from cut d have l: "entries (heap (fst (split_node five_leaf 0)) ! 0) =
      [(Rect 0 0 0 0, Data 0 0), (Rect 1 1 1 1, Data 1 1)]"
    by simp
  from cut e have r: "entries (heap (fst (split_node five_leaf 0)) ! snd (split_node five_leaf 0)) =
      [(Rect 2 2 2 2, Data 2 2), (Rect 3 3 3 3, Data 3 3), (Rect 4 4 4 4, Data 4 4)]"
    by simp
  from cut c have k: "leaf (heap (fst (split_node five_leaf 0)) ! snd (split_node five_leaf 0))"
    by simp
  show ?thesis
    using a b n l r k by (intro conjI)
qed

text \<open>
  C4 as stated fails on five entries: two stay and three move, where the midpoint
  rounded up would keep three.
\<close>

theorem split_node_midpoint_counterexample:
  "length (entries (heap five_leaf ! 0)) = 5 \<and>
   nat \<lceil>(5::rat) / 2\<rceil> = 3 \<and>
   length (entries (heap (fst (split_node five_leaf 0)) ! 0)) = 2 \<and>
   length (entries (heap (fst (split_node five_leaf 0)) ! snd (split_node five_leaf 0))) = 3 \<and>
   entries (heap (fst (split_node five_leaf 0)) ! 0) \<noteq> take (nat \<lceil>(5::rat) / 2\<rceil>) (entries (heap five_leaf ! 0))"
  by code_simp

section \<open>Stale bounding rectangles in the base index\<close>

text \<open>
  \<open>RTree.insert\<close> appends to the chosen leaf and, unless the leaf overflows, returns:
  no rectangle above the leaf is refreshed (\<open>_bubble_up_mbr\<close> is called by
  \<open>RStarTree.insert\<close> only).
\<close>

text \<open>
  C1 fails on the code. After the six insertions the point \<open>(10, 10)\<close> with payload 5
  lies in the second leaf, whose rectangle in the root is still \<open>(2, 2)-(4, 4)\<close>: the
  query with the window \<open>(9, 9)-(11, 11)\<close>, which the point intersects, returns
  nothing.
\<close>

theorem range_query_misses_entry:
  "RTree_init 4 = Inr (\<lparr>max_entries = 4, root = 0, node_visits = 0, heap = [Node True]\<rparr> :: nat rtree) \<and>
   RTree_inserts \<lparr>max_entries = 4, root = 0, node_visits = 0, heap = [Node True]\<rparr> six_points
     = Some (Inr six_tree) \<and>
   intersects (Rect 10 10 10 10) (Rect 9 9 11 11) \<and>
   intersects (Rect 9 9 11 11) (Rect 10 10 10 10) \<and>
   range_query six_tree (Rect 9 9 11 11) None = Some (Inr ([], six_tree\<lparr>node_visits := 1\<rparr>))"
  by code_simp

text \<open>
  C2 fails on the code, in the same tree: the root's rectangle for its second child is
  \<open>(2, 2)-(4, 4)\<close>, the bounding rectangle of the child's entries is
  \<open>(2, 2)-(10, 10)\<close>, and the entry \<open>(10, 10)\<close> of the child lies outside the root's
  rectangle.
\<close>

theorem parent_rectangle_under_bounds:
  "RTree_inserts \<lparr>max_entries = 4, root = 0, node_visits = 0, heap = [Node True]\<rparr> six_points
     = Some (Inr six_tree) \<and>
   entries (heap six_tree ! root six_tree) ! 1 = (Rect 2 2 4 4, Child 1) \<and>
   Node_mbr (heap six_tree ! 1) = Inr (Rect 2 2 10 10) \<and>
   (Rect 10 10 10 10, Data 5 5) \<in> set (entries (heap six_tree ! 1)) \<and>
   enlarge (Rect 2 2 4 4) (Rect 10 10 10 10) \<noteq> Rect 2 2 4 4"
  by code_simp

section \<open>The eviction of the forced reinsertion\<close>

text \<open>
  C5 fails on the code. \<open>keep\<close> is computed by membership in \<open>to_reinsert\<close>, not
  by position: three entries of one \<open>Rect\<close> object and equal payloads are all equal
  to the one evicted entry (\<open>k = 1\<close>), so that the node keeps no entry.
\<close>

theorem eviction_empties_node:
  "RStarTree_init 2 (1 / 4) = Inr rstar_2 \<and>
   RStarTree_inserts rstar_2 (take 2 same_rect_thrice)
     = Some (Inr (rstar_2\<lparr>heap := [\<lparr>leaf = True, entries = [(Rect 0 0 0 0, Data 7 0), (Rect 0 0 0 0, Data 7 0)], parent = None\<rparr>]\<rparr>)) \<and>
   Node_mbr \<lparr>leaf = True, entries = [(Rect 0 0 0 0, Data 7 0), (Rect 0 0 0 0, Data 7 0), (Rect 0 0 0 0, Data 7 (0::nat))], parent = None\<rparr> = Inr (Rect 0 0 0 0) \<and>
   evict (1 / 4) (Rect 0 0 0 0) [(Rect 0 0 0 0, Data 7 0), (Rect 0 0 0 0, Data 7 0), (Rect 0 0 0 0, Data 7 (0::nat))]
     = ([(Rect 0 0 0 0, Data 7 0)], [])"
  by code_simp

text \<open>
  C10 fails on the code, by the same comparison: of the three inserted pairs one is left
  in the tree after the third call.
\<close>

theorem reinsertion_drops_entries:
  "RStarTree_inserts rstar_2 same_rect_thrice
     = Some (Inr (rstar_2\<lparr>heap := [\<lparr>leaf = True, entries = [(Rect 0 0 0 0, Data 7 0)], parent = None\<rparr>]\<rparr>)) \<and>
   leaf_entries [\<lparr>leaf = True, entries = [(Rect 0 0 0 0, Data 7 (0::nat))], parent = None\<rparr>] 0
     = Some (Inr [(Rect 0 0 0 0, Data 7 0)]) \<and>
   mset [(Rect 0 0 0 0, Data 7 (0::nat))] \<noteq> mset (map (\<lambda>(i, r, d). (r, Data i d)) same_rect_thrice)"
  by code_simp

section \<open>The invariant of the store\<close>

subsection \<open>Appending an entry\<close>

lemma length_Node_add [simp]: "length (Node_add h a r c) = length h"
  by (simp add: Node_add_def Let_def)

lemma entries_Node_add:
  "entries (Node_add h a r c ! b) =
     (if b = a \<and> a < length h then entries (h ! a) @ [(r, c)] else entries (h ! b))"
  by (simp add: Node_add_def Let_def nth_list_update_any)

lemma leaf_Node_add [simp]: "leaf (Node_add h a r c ! b) = leaf (h ! b)"
  by (simp add: Node_add_def Let_def nth_list_update_any)

lemma parent_set_parent:
  "parent (set_parent h c p ! b) = (if c = Child b \<and> b < length h then Some p else parent (h ! b))"
  by (cases c) (auto simp: set_parent_def nth_list_update_any)

lemma parent_Node_add:
  "parent (Node_add h a r c ! b) = (if c = Child b \<and> b < length h then Some a else parent (h ! b))"
  by (simp add: Node_add_def Let_def nth_list_update_any parent_set_parent)

lemma slots_Node_add:
  "slots (Node_add h a r c ! b) =
     (if b = a \<and> a < length h then insert c (slots (h ! a)) else slots (h ! b))"
  by (simp add: slots_def entries_Node_add)

lemma set_parents_Nil [simp]: "set_parents h [] p = h"
  by (simp add: set_parents_def)

lemma set_parents_snoc [simp]:
  "set_parents h (es @ [e]) p = set_parent (set_parents h es p) (snd e) p"
  by (simp add: set_parents_def split: prod.split)

lemma parent_set_parents:
  "parent (set_parents h es p ! b) =
     (if Child b \<in> snd ` set es \<and> b < length h then Some p else parent (h ! b))"
proof (induction es rule: rev_induct)
  case Nil
  show ?case by simp
next
  case (snoc e es)
  show ?case
    by (auto simp: snoc parent_set_parent)
qed

subsection \<open>Levels\<close>

lemma wf_lvlI:
  assumes "root t < length (heap t)"
    and "\<And>a. a < length (heap t) \<Longrightarrow> lvl a \<le> lvl (root t)"
    and "\<And>a c. a < length (heap t) \<Longrightarrow> Child c \<in> slots (heap t ! a) \<Longrightarrow>
           c < length (heap t) \<and> lvl c < lvl a \<and> \<not> leaf (heap t ! a)"
    and "\<And>a p. a < length (heap t) \<Longrightarrow> parent (heap t ! a) = Some p \<Longrightarrow>
           p < length (heap t) \<and> lvl a < lvl p \<and> \<not> leaf (heap t ! p)"
    and "\<And>a i d. a < length (heap t) \<Longrightarrow> Data i d \<in> slots (heap t ! a) \<Longrightarrow> leaf (heap t ! a)"
  shows "wf_lvl lvl t"
  using assms unfolding wf_lvl_def by (intro conjI allI impI) blast+

lemma wf_lvl_root: "wf_lvl lvl t \<Longrightarrow> root t < length (heap t)"
  unfolding wf_lvl_def by blast

lemma wf_lvl_le: "wf_lvl lvl t \<Longrightarrow> a < length (heap t) \<Longrightarrow> lvl a \<le> lvl (root t)"
  unfolding wf_lvl_def by blast

lemma wf_lvl_child:
  "wf_lvl lvl t \<Longrightarrow> a < length (heap t) \<Longrightarrow> Child c \<in> slots (heap t ! a) \<Longrightarrow>
   c < length (heap t) \<and> lvl c < lvl a \<and> \<not> leaf (heap t ! a)"
  unfolding wf_lvl_def by blast

lemma wf_lvl_parent:
  "wf_lvl lvl t \<Longrightarrow> a < length (heap t) \<Longrightarrow> parent (heap t ! a) = Some p \<Longrightarrow>
   p < length (heap t) \<and> lvl a < lvl p \<and> \<not> leaf (heap t ! p)"
  unfolding wf_lvl_def by blast

lemma wf_lvl_data:
  "wf_lvl lvl t \<Longrightarrow> a < length (heap t) \<Longrightarrow> Data i d \<in> slots (heap t ! a) \<Longrightarrow> leaf (heap t ! a)"
  unfolding wf_lvl_def by blast

lemma wf_lvl_shape:
  assumes wf: "wf_lvl lvl t"
    and rt: "root t' = root t"
    and len: "length (heap t') = length (heap t)"
    and sl: "\<And>a. a < length (heap t) \<Longrightarrow> slots (heap t' ! a) \<subseteq> slots (heap t ! a)"
    and pa: "\<And>a. a < length (heap t) \<Longrightarrow> parent (heap t' ! a) = parent (heap t ! a)"
    and lf: "\<And>a. a < length (heap t) \<Longrightarrow> leaf (heap t' ! a) = leaf (heap t ! a)"
  shows "wf_lvl lvl t'"
proof (rule wf_lvlI)
  show "root t' < length (heap t')"
    using wf_lvl_root [OF wf] rt len by simp
next
  fix a assume "a < length (heap t')"
  then show "lvl a \<le> lvl (root t')"
    using wf_lvl_le [OF wf, of a] rt len by simp
next
  fix a c assume a: "a < length (heap t')" and c: "Child c \<in> slots (heap t' ! a)"
  from a len have a': "a < length (heap t)" by simp
  from c sl [OF a'] have "Child c \<in> slots (heap t ! a)" by blast
  from wf_lvl_child [OF wf a' this] lf [OF a'] len
  show "c < length (heap t') \<and> lvl c < lvl a \<and> \<not> leaf (heap t' ! a)" by simp
next
  fix a p assume a: "a < length (heap t')" and p: "parent (heap t' ! a) = Some p"
  from a len have a': "a < length (heap t)" by simp
  from p pa [OF a'] have "parent (heap t ! a) = Some p" by simp
  from wf_lvl_parent [OF wf a' this]
  have *: "p < length (heap t)" "lvl a < lvl p" "\<not> leaf (heap t ! p)" by simp_all
  from * lf [OF *(1)] len
  show "p < length (heap t') \<and> lvl a < lvl p \<and> \<not> leaf (heap t' ! p)" by simp
next
  fix a i d assume a: "a < length (heap t')" and d: "Data i d \<in> slots (heap t' ! a)"
  from a len have a': "a < length (heap t)" by simp
  from d sl [OF a'] have "Data i d \<in> slots (heap t ! a)" by blast
  from wf_lvl_data [OF wf a' this] lf [OF a']
  show "leaf (heap t' ! a)" by simp
qed

lemma wf_Node_add_Data:
  assumes wf: "wf_lvl lvl t" and a: "a < length (heap t)" and lf: "leaf (heap t ! a)"
  shows "wf_lvl lvl (t\<lparr>heap := Node_add (heap t) a r (Data i d)\<rparr>)" (is "wf_lvl lvl ?t'")
proof (rule wf_lvlI)
  show "root ?t' < length (heap ?t')"
    using wf_lvl_root [OF wf] by simp
next
  fix b assume "b < length (heap ?t')"
  then show "lvl b \<le> lvl (root ?t')"
    using wf_lvl_le [OF wf, of b] by simp
next
  fix b c assume b: "b < length (heap ?t')" and c: "Child c \<in> slots (heap ?t' ! b)"
  from b have b': "b < length (heap t)" by simp
  from c have "Child c \<in> slots (heap t ! b)"
    by (simp add: slots_Node_add split: if_splits)
  from wf_lvl_child [OF wf b' this]
  show "c < length (heap ?t') \<and> lvl c < lvl b \<and> \<not> leaf (heap ?t' ! b)" by simp
next
  fix b p assume b: "b < length (heap ?t')" and p: "parent (heap ?t' ! b) = Some p"
  from b have b': "b < length (heap t)" by simp
  from p have "parent (heap t ! b) = Some p"
    by (simp add: parent_Node_add)
  from wf_lvl_parent [OF wf b' this]
  show "p < length (heap ?t') \<and> lvl b < lvl p \<and> \<not> leaf (heap ?t' ! p)" by simp
next
  fix b j e assume b: "b < length (heap ?t')" and d: "Data j e \<in> slots (heap ?t' ! b)"
  from b have b': "b < length (heap t)" by simp
  show "leaf (heap ?t' ! b)"
  proof (cases "b = a")
    case True
    then show ?thesis using lf by simp
  next
    case False
    with d have "Data j e \<in> slots (heap t ! b)" by (simp add: slots_Node_add)
    from wf_lvl_data [OF wf b' this] show ?thesis by simp
  qed
qed

lemma wf_Node_add_Child:
  assumes wf: "wf_lvl lvl t" and p: "p < length (heap t)" and c: "c < length (heap t)"
    and lt: "lvl c < lvl p" and nl: "\<not> leaf (heap t ! p)"
  shows "wf_lvl lvl (t\<lparr>heap := Node_add (heap t) p m (Child c)\<rparr>)" (is "wf_lvl lvl ?t'")
proof (rule wf_lvlI)
  show "root ?t' < length (heap ?t')"
    using wf_lvl_root [OF wf] by simp
next
  fix b assume "b < length (heap ?t')"
  then show "lvl b \<le> lvl (root ?t')"
    using wf_lvl_le [OF wf, of b] by simp
next
  fix b x assume b: "b < length (heap ?t')" and x: "Child x \<in> slots (heap ?t' ! b)"
  from b have b': "b < length (heap t)" by simp
  show "x < length (heap ?t') \<and> lvl x < lvl b \<and> \<not> leaf (heap ?t' ! b)"
  proof (cases "b = p \<and> x = c")
    case True
    then show ?thesis using c lt nl by simp
  next
    case False
    with x have "Child x \<in> slots (heap t ! b)"
      by (auto simp: slots_Node_add split: if_splits)
    from wf_lvl_child [OF wf b' this] show ?thesis by simp
  qed
next
  fix b q assume b: "b < length (heap ?t')" and q: "parent (heap ?t' ! b) = Some q"
  from b have b': "b < length (heap t)" by simp
  show "q < length (heap ?t') \<and> lvl b < lvl q \<and> \<not> leaf (heap ?t' ! q)"
  proof (cases "b = c")
    case True
    with q c have "q = p" by (simp add: parent_Node_add)
    then show ?thesis using True p lt nl by simp
  next
    case False
    with q have "parent (heap t ! b) = Some q" by (simp add: parent_Node_add)
    from wf_lvl_parent [OF wf b' this] show ?thesis by simp
  qed
next
  fix b j e assume b: "b < length (heap ?t')" and d: "Data j e \<in> slots (heap ?t' ! b)"
  from b have b': "b < length (heap t)" by simp
  from d have "Data j e \<in> slots (heap t ! b)"
    by (simp add: slots_Node_add split: if_splits)
  from wf_lvl_data [OF wf b' this] show "leaf (heap ?t' ! b)" by simp
qed

subsection \<open>The split\<close>

lemma root_split_node [simp]: "root (fst (split_node t node)) = root t"
  by (simp add: split_node_def Let_def)

lemma frame_split_node [simp]:
  "max_entries (fst (split_node t node)) = max_entries t"
  "node_visits (fst (split_node t node)) = node_visits t"
  "rtree.more (fst (split_node t node)) = rtree.more t"
  by (simp_all add: split_node_def Let_def)

lemma slots_split_node:
  assumes "node < length (heap t)" and "a \<le> length (heap t)"
  shows "slots (heap (fst (split_node t node)) ! a)
           \<subseteq> (if a = node \<or> a = length (heap t) then slots (heap t ! node) else slots (heap t ! a))"
  using assms set_take_subset [of "max 1 (length (entries (heap t ! node)) div 2)" "entries (heap t ! node)"]
    set_drop_subset [of "max 1 (length (entries (heap t ! node)) div 2)" "entries (heap t ! node)"]
  by (auto simp: slots_def entries_split_node)

lemma parent_split_node:
  assumes "node < length (heap t)" and "a \<le> length (heap t)"
    and "parent (heap (fst (split_node t node)) ! a) = Some p"
  shows "(a < length (heap t) \<and> parent (heap t ! a) = Some p) \<or>
         (\<not> leaf (heap t ! node) \<and> Child a \<in> slots (heap t ! node) \<and>
            (p = node \<or> p = length (heap t)))"
proof -
  let ?es = "entries (heap t ! node)"
  let ?half = "max 1 (length ?es div 2)"
  have sub: "snd ` set (take ?half ?es) \<subseteq> slots (heap t ! node)"
    "snd ` set (drop ?half ?es) \<subseteq> slots (heap t ! node)"
    using set_take_subset [of ?half ?es] set_drop_subset [of ?half ?es]
    by (auto simp: slots_def)
  from assms(3) have
    "(a < length (heap t) \<and> parent (heap t ! a) = Some p) \<or>
     (\<not> leaf (heap t ! node) \<and>
        (Child a \<in> snd ` set (take ?half ?es) \<or> Child a \<in> snd ` set (drop ?half ?es)) \<and>
        (p = node \<or> p = length (heap t)))"
    using assms(1,2)
    by (simp add: split_node_def Let_def parent_set_parents nth_list_update_any nth_append
        Node_def split: if_splits)
  with sub show ?thesis by blast
qed

lemma wf_split_node_gen:
  assumes wf: "wf_lvl lvl t" and node: "node < length (heap t)"
    and lvl_new: "lvl' (length (heap t)) = lvl node"
    and lvl_old: "\<And>b. b < length (heap t) \<Longrightarrow> lvl' b = lvl b"
  shows "wf_lvl lvl' (fst (split_node t node))" (is "wf_lvl lvl' ?t'")
proof (rule wf_lvlI)
  let ?n = "length (heap t)"
  have rt: "root t < ?n" by (rule wf_lvl_root [OF wf])
  show "root ?t' < length (heap ?t')" using rt by simp
  {
    fix a assume a: "a < length (heap ?t')"
    define a0 where "a0 = (if a = ?n then node else a)"
    have a0: "a0 < ?n" using a node by (simp add: a0_def)
    have lvl_a: "lvl' a = lvl a0"
    proof (cases "a = ?n")
      case True
      then show ?thesis using lvl_new by (simp add: a0_def)
    next
      case False
      with a have "a < ?n" by simp
      from lvl_old [OF this] False show ?thesis by (simp add: a0_def)
    qed
    have leaf_a: "leaf (heap ?t' ! a) = leaf (heap t ! a0)"
      using a node by (simp add: a0_def leaf_split_node)
    have slots_a: "slots (heap ?t' ! a) \<subseteq> slots (heap t ! a0)"
      using slots_split_node [OF node, of a] a by (auto simp: a0_def split: if_splits)
    show "lvl' a \<le> lvl' (root ?t')"
      using wf_lvl_le [OF wf a0] lvl_old [OF rt] by (simp add: lvl_a)
    {
      fix c assume "Child c \<in> slots (heap ?t' ! a)"
      with slots_a have "Child c \<in> slots (heap t ! a0)" by blast
      from wf_lvl_child [OF wf a0 this]
      have *: "c < ?n" "lvl c < lvl a0" "\<not> leaf (heap t ! a0)" by simp_all
      from * lvl_old [OF *(1)]
      show "c < length (heap ?t') \<and> lvl' c < lvl' a \<and> \<not> leaf (heap ?t' ! a)"
        by (simp add: lvl_a leaf_a)
    }
    {
      fix i d assume "Data i d \<in> slots (heap ?t' ! a)"
      with slots_a have "Data i d \<in> slots (heap t ! a0)" by blast
      from wf_lvl_data [OF wf a0 this]
      show "leaf (heap ?t' ! a)" by (simp add: leaf_a)
    }
    {
      fix p assume p: "parent (heap ?t' ! a) = Some p"
      from a have a': "a \<le> ?n" by simp
      from parent_split_node [OF node a' p]
      show "p < length (heap ?t') \<and> lvl' a < lvl' p \<and> \<not> leaf (heap ?t' ! p)"
      proof
        assume old: "a < ?n \<and> parent (heap t ! a) = Some p"
        then have a'': "a < ?n" and "parent (heap t ! a) = Some p" by simp_all
        from wf_lvl_parent [OF wf this]
        have *: "p < ?n" "lvl a < lvl p" "\<not> leaf (heap t ! p)" by simp_all
        from * node lvl_old [OF a''] lvl_old [OF *(1)] show ?thesis
          by (simp add: leaf_split_node)
      next
        assume new: "\<not> leaf (heap t ! node) \<and> Child a \<in> slots (heap t ! node) \<and>
            (p = node \<or> p = ?n)"
        then have "Child a \<in> slots (heap t ! node)" by simp
        from wf_lvl_child [OF wf node this]
        have *: "a < ?n" "lvl a < lvl node" by simp_all
        from new have pp: "p = node \<or> p = ?n" and nl: "\<not> leaf (heap t ! node)" by simp_all
        from pp show ?thesis
        proof
          assume "p = node"
          with * nl node lvl_old [OF *(1)] lvl_old [OF node] show ?thesis
            by (simp add: leaf_split_node)
        next
          assume "p = ?n"
          with * nl node lvl_old [OF *(1)] lvl_new show ?thesis
            by (simp add: leaf_split_node)
        qed
      qed
    }
  }
qed

lemma wf_split_node:
  assumes "wf_lvl lvl t" and "node < length (heap t)"
  shows "wf_lvl (lvl(length (heap t) := lvl node)) (fst (split_node t node))"
  by (rule wf_split_node_gen [OF assms]) simp_all

subsection \<open>A new root\<close>

lemma new_root_over_Inr:
  assumes "new_root_over t node new_node = Inr t'"
  shows "\<exists>m m'. t' = t\<lparr>heap :=
      (Node_add (Node_add (heap t @ [Node False]) (length (heap t)) m (Child node))
         (length (heap t)) m' (Child new_node))
      [node := (Node_add (Node_add (heap t @ [Node False]) (length (heap t)) m (Child node))
         (length (heap t)) m' (Child new_node) ! node)\<lparr>parent := Some (length (heap t))\<rparr>,
       new_node := ((Node_add (Node_add (heap t @ [Node False]) (length (heap t)) m (Child node))
         (length (heap t)) m' (Child new_node))
           [node := (Node_add (Node_add (heap t @ [Node False]) (length (heap t)) m (Child node))
              (length (heap t)) m' (Child new_node) ! node)\<lparr>parent := Some (length (heap t))\<rparr>]
           ! new_node)\<lparr>parent := Some (length (heap t))\<rparr>],
      root := length (heap t)\<rparr>"
  using assms by (auto simp: new_root_over_def Let_def split: sum.splits)

lemma new_root_over_fields:
  assumes eq: "new_root_over t node new_node = Inr t'"
    and node: "node < length (heap t)" and new: "new_node < length (heap t)"
  shows "root t' = length (heap t)"
    and "length (heap t') = Suc (length (heap t))"
    and "max_entries t' = max_entries t"
    and "node_visits t' = node_visits t"
    and "rtree.more t' = rtree.more t"
    and "\<exists>r1 r2. entries (heap t' ! length (heap t)) = [(r1, Child node), (r2, Child new_node)]"
    and "a < length (heap t) \<Longrightarrow> entries (heap t' ! a) = entries (heap t ! a)"
    and "a \<le> length (heap t) \<Longrightarrow> leaf (heap t' ! a) =
          (if a = length (heap t) then False else leaf (heap t ! a))"
    and "a \<le> length (heap t) \<Longrightarrow> parent (heap t' ! a) =
          (if a = node \<or> a = new_node then Some (length (heap t))
           else if a = length (heap t) then None else parent (heap t ! a))"
proof -
  from new_root_over_Inr [OF eq] obtain m m' where t': "t' = t\<lparr>heap :=
      (Node_add (Node_add (heap t @ [Node False]) (length (heap t)) m (Child node))
         (length (heap t)) m' (Child new_node))
      [node := (Node_add (Node_add (heap t @ [Node False]) (length (heap t)) m (Child node))
         (length (heap t)) m' (Child new_node) ! node)\<lparr>parent := Some (length (heap t))\<rparr>,
       new_node := ((Node_add (Node_add (heap t @ [Node False]) (length (heap t)) m (Child node))
         (length (heap t)) m' (Child new_node))
           [node := (Node_add (Node_add (heap t @ [Node False]) (length (heap t)) m (Child node))
              (length (heap t)) m' (Child new_node) ! node)\<lparr>parent := Some (length (heap t))\<rparr>]
           ! new_node)\<lparr>parent := Some (length (heap t))\<rparr>],
      root := length (heap t)\<rparr>"
    by blast
  show "root t' = length (heap t)" "length (heap t') = Suc (length (heap t))"
    "max_entries t' = max_entries t" "node_visits t' = node_visits t"
    "rtree.more t' = rtree.more t"
    by (simp_all add: t')
  show "\<exists>r1 r2. entries (heap t' ! length (heap t)) = [(r1, Child node), (r2, Child new_node)]"
    using node new
    by (simp add: t' nth_list_update_any entries_Node_add nth_append Node_def)
  show "a < length (heap t) \<Longrightarrow> entries (heap t' ! a) = entries (heap t ! a)"
    using node new
    by (simp add: t' nth_list_update_any entries_Node_add nth_append Node_def)
  show "a \<le> length (heap t) \<Longrightarrow> leaf (heap t' ! a) =
          (if a = length (heap t) then False else leaf (heap t ! a))"
    using node new
    by (simp add: t' nth_list_update_any nth_append Node_def)
  show "a \<le> length (heap t) \<Longrightarrow> parent (heap t' ! a) =
          (if a = node \<or> a = new_node then Some (length (heap t))
           else if a = length (heap t) then None else parent (heap t ! a))"
    using node new
    by (simp add: t' nth_list_update_any parent_Node_add nth_append Node_def)
qed

lemma slots_new_root_over:
  assumes eq: "new_root_over t node new_node = Inr t'"
    and node: "node < length (heap t)" and new: "new_node < length (heap t)"
    and a: "a \<le> length (heap t)"
  shows "slots (heap t' ! a) =
           (if a = length (heap t) then {Child node, Child new_node} else slots (heap t ! a))"
proof (cases "a = length (heap t)")
  case True
  from new_root_over_fields(6) [OF eq node new] obtain r1 r2
    where "entries (heap t' ! length (heap t)) = [(r1, Child node), (r2, Child new_node)]"
    by blast
  with True show ?thesis by (simp add: slots_def)
next
  case False
  with a have "a < length (heap t)" by simp
  from new_root_over_fields(7) [OF eq node new this] False show ?thesis
    by (simp add: slots_def)
qed

lemma wf_new_root_over:
  assumes wf: "wf_lvl lvl t"
    and eq: "new_root_over t node new_node = Inr t'"
    and node: "node < length (heap t)" and new: "new_node < length (heap t)"
    and lvl_new: "lvl' (length (heap t)) = Suc (lvl (root t))"
    and lvl_old: "\<And>b. b < length (heap t) \<Longrightarrow> lvl' b = lvl b"
  shows "wf_lvl lvl' t'"
proof (rule wf_lvlI)
  let ?n = "length (heap t)"
  note f = new_root_over_fields [OF eq node new]
  note sl = slots_new_root_over [OF eq node new]
  show "root t' < length (heap t')" by (simp add: f)
  have below: "lvl' b < lvl' ?n" if "b < ?n" for b
    using wf_lvl_le [OF wf that] lvl_old [OF that] lvl_new by simp
  {
    fix a assume a: "a < length (heap t')"
    then have a': "a \<le> ?n" by (simp add: f)
    show "lvl' a \<le> lvl' (root t')"
    proof (cases "a = ?n")
      case True
      then show ?thesis by (simp add: f)
    next
      case False
      with a' have "a < ?n" by simp
      from below [OF this] show ?thesis by (simp add: f)
    qed
    {
      fix c assume c: "Child c \<in> slots (heap t' ! a)"
      show "c < length (heap t') \<and> lvl' c < lvl' a \<and> \<not> leaf (heap t' ! a)"
      proof (cases "a = ?n")
        case True
        with c sl [OF a'] have "c = node \<or> c = new_node" by simp
        with node new have "c < ?n" by blast
        from this below [OF this] True f(8) [OF a'] show ?thesis by (simp add: f)
      next
        case False
        with a' have a'': "a < ?n" by simp
        from c sl [OF a'] False have "Child c \<in> slots (heap t ! a)" by simp
        from wf_lvl_child [OF wf a'' this]
        have *: "c < ?n" "lvl c < lvl a" "\<not> leaf (heap t ! a)" by simp_all
        from * lvl_old [OF *(1)] lvl_old [OF a''] f(8) [OF a'] False show ?thesis
          by (simp add: f)
      qed
    }
    {
      fix i d assume d: "Data i d \<in> slots (heap t' ! a)"
      show "leaf (heap t' ! a)"
      proof (cases "a = ?n")
        case True
        with d sl [OF a'] show ?thesis by simp
      next
        case False
        with a' have a'': "a < ?n" by simp
        from d sl [OF a'] False have "Data i d \<in> slots (heap t ! a)" by simp
        from wf_lvl_data [OF wf a'' this] f(8) [OF a'] False show ?thesis by simp
      qed
    }
    {
      fix p assume p: "parent (heap t' ! a) = Some p"
      show "p < length (heap t') \<and> lvl' a < lvl' p \<and> \<not> leaf (heap t' ! p)"
      proof (cases "a = node \<or> a = new_node")
        case True
        with p f(9) [OF a'] have pn: "p = ?n" by simp
        from True node new have "a < ?n" by blast
        from below [OF this] pn f(8) [of ?n] show ?thesis by (simp add: f)
      next
        case False
        with p f(9) [OF a'] have an: "a \<noteq> ?n" and old: "parent (heap t ! a) = Some p"
          by (simp_all split: if_splits)
        from an a' have a'': "a < ?n" by simp
        from wf_lvl_parent [OF wf a'' old]
        have *: "p < ?n" "lvl a < lvl p" "\<not> leaf (heap t ! p)" by simp_all
        from * lvl_old [OF *(1)] lvl_old [OF a''] f(8) [of p] show ?thesis
          by (simp add: f)
      qed
    }
  }
qed

section \<open>Termination of the insertion paths\<close>

subsection \<open>Results of fallible calls\<close>

lemma returns_Inl [simp]: "returns (Some (Inl e)) Q"
  by (simp add: returns_def)

lemma returns_Inr [simp]: "returns (Some (Inr v)) Q \<longleftrightarrow> Q v"
  by (simp add: returns_def)


lemma returnsD: "returns r Q \<Longrightarrow> r = Some (Inr v) \<Longrightarrow> Q v"
  unfolding returns_def by auto

lemma returns_weaken:
  assumes "returns r Q" and "\<And>v. Q v \<Longrightarrow> R v"
  shows "returns r R"
  using assms unfolding returns_def by blast

lemma returns_bind:
  assumes "returns m Q" and "\<And>v. Q v \<Longrightarrow> returns (f v) R"
  shows "returns (Option.bind m (\<lambda>r. case r of Inl e \<Rightarrow> Some (Inl e) | Inr v \<Rightarrow> f v)) R"
proof -
  from assms(1) obtain res where m: "m = Some res" and q: "\<And>v. res = Inr v \<Longrightarrow> Q v"
    unfolding returns_def by blast
  show ?thesis
  proof (cases res)
    case (Inl e)
    then show ?thesis by (simp add: m)
  next
    case (Inr v)
    from assms(2) [OF q [OF Inr]] show ?thesis by (simp add: m Inr)
  qed
qed

lemma returns_for_loop:
  assumes "I s" and "\<And>x s'. x \<in> set xs \<Longrightarrow> I s' \<Longrightarrow> returns (body x s') I"
  shows "returns (for_loop xs body s) I"
  using assms
proof (induction xs arbitrary: s)
  case Nil
  then show ?case by simp
next
  case (Cons x xs)
  have step: "returns (body x s) I"
    by (rule Cons.prems(2)) (simp_all add: Cons.prems(1))
  show ?case
    unfolding for_loop.simps
  proof (rule returns_bind [OF step])
    fix v assume "I v"
    then show "returns (for_loop xs body v) I"
      by (rule Cons.IH) (simp add: Cons.prems(2))
  qed
qed

subsection \<open>The descent to a leaf\<close>

lemma best_child_step:
  "foldl (\<lambda>best (r, child).
            let inc = area (enlarge r rect) - area r; key = (inc, area r)
            in case best of
                 None \<Rightarrow> Some (key, child)
               | Some (best_key, c) \<Rightarrow>
                   if key_less key best_key then Some (key, child) else best) b es = Some (k, c)
   \<Longrightarrow> b = Some (k, c) \<or> c \<in> snd ` set es"
proof (induction es arbitrary: b)
  case Nil
  then show ?case by simp
next
  case (Cons e es)
  from Cons.IH [OF Cons.prems [simplified foldl_Cons]]
  show ?case
    by (cases e; cases b) (auto simp: Let_def split: if_splits)
qed

lemma best_child_in: "best_child es rect = Some c \<Longrightarrow> c \<in> snd ` set es"
proof -
  assume "best_child es rect = Some c"
  then obtain k where "foldl (\<lambda>best (r, child).
            let inc = area (enlarge r rect) - area r; key = (inc, area r)
            in case best of
                 None \<Rightarrow> Some (key, child)
               | Some (best_key, c) \<Rightarrow>
                   if key_less key best_key then Some (key, child) else best) None es = Some (k, c)"
    by (auto simp: best_child_def)
  from best_child_step [OF this] show ?thesis by simp
qed

lemma choose_leaf_returns:
  assumes wf: "wf_lvl lvl t"
  shows "a < length (heap t) \<Longrightarrow>
         returns (choose_leaf t a rect) (\<lambda>lf. lf < length (heap t) \<and> leaf (heap t ! lf))"
proof (induction "lvl a" arbitrary: a rule: less_induct)
  case less
  show ?case
  proof (cases "leaf (heap t ! a)")
    case True
    then show ?thesis
      using less.prems by (subst choose_leaf.simps) simp
  next
    case False
    show ?thesis
    proof (cases "best_child (entries (heap t ! a)) rect")
      case None
      then show ?thesis
        using False by (subst choose_leaf.simps) simp
    next
      case (Some s)
      show ?thesis
      proof (cases s)
        case (Data i d)
        then show ?thesis
          using False Some by (subst choose_leaf.simps) simp
      next
        case (Child c)
        from best_child_in [OF Some] Child have "Child c \<in> slots (heap t ! a)"
          by (simp add: slots_def)
        from wf_lvl_child [OF wf less.prems this]
        have c: "c < length (heap t)" "lvl c < lvl a" by simp_all
        have "choose_leaf t a rect = choose_leaf t c rect"
          using False Some Child by (subst choose_leaf.simps) simp
        with less.hyps [OF c(2) c(1)] show ?thesis by simp
      qed
    qed
  qed
qed

subsection \<open>Capacity\<close>

lemma capacityI:
  "(\<And>a. a < length (heap t) \<Longrightarrow> int (length (entries (heap t ! a))) \<le> max_entries t)
   \<Longrightarrow> capacity t"
  unfolding capacity_def by blast

lemma capacityD:
  "capacity t \<Longrightarrow> a < length (heap t) \<Longrightarrow> int (length (entries (heap t ! a))) \<le> max_entries t"
  unfolding capacity_def by blast

lemma capacity_butI:
  "(\<And>a. a < length (heap t) \<Longrightarrow>
      int (length (entries (heap t ! a))) \<le> (if a = node then max_entries t + 1 else max_entries t))
   \<Longrightarrow> capacity_but t node"
  unfolding capacity_but_def by blast

lemma capacity_butD:
  "capacity_but t node \<Longrightarrow> a < length (heap t) \<Longrightarrow>
   int (length (entries (heap t ! a))) \<le> (if a = node then max_entries t + 1 else max_entries t)"
  unfolding capacity_but_def by blast

lemma capacity_but_capacity:
  assumes "capacity_but t node"
    and "\<not> int (length (entries (heap t ! node))) > max_entries t"
  shows "capacity t"
proof (rule capacityI)
  fix a assume "a < length (heap t)"
  from capacity_butD [OF assms(1) this] assms(2)
  show "int (length (entries (heap t ! a))) \<le> max_entries t"
    by (cases "a = node") simp_all
qed

lemma capacity_Node_add:
  assumes "capacity t" and "p < length (heap t)"
  shows "capacity_but (t\<lparr>heap := Node_add (heap t) p m c\<rparr>) p"
proof (rule capacity_butI)
  fix a assume "a < length (heap (t\<lparr>heap := Node_add (heap t) p m c\<rparr>))"
  then have a: "a < length (heap t)" by simp
  from capacityD [OF assms(1) a]
  show "int (length (entries (heap (t\<lparr>heap := Node_add (heap t) p m c\<rparr>) ! a)))
          \<le> (if a = p then max_entries (t\<lparr>heap := Node_add (heap t) p m c\<rparr>) + 1
              else max_entries (t\<lparr>heap := Node_add (heap t) p m c\<rparr>))"
    using assms(2) by (cases "a = p") (simp_all add: entries_Node_add)
qed

lemma capacity_split_node:
  assumes cap: "capacity_but t node" and m: "1 \<le> max_entries t" and node: "node < length (heap t)"
  shows "capacity (fst (split_node t node))"
proof (rule capacityI)
  fix a assume "a < length (heap (fst (split_node t node)))"
  then have a: "a \<le> length (heap t)" by simp
  let ?es = "entries (heap t ! node)"
  from capacity_butD [OF cap node] have len: "int (length ?es) \<le> max_entries t + 1" by simp
  show "int (length (entries (heap (fst (split_node t node)) ! a)))
          \<le> max_entries (fst (split_node t node))"
  proof (cases "a = node \<or> a = length (heap t)")
    case True
    with len m node show ?thesis
      by (auto simp: entries_split_node)
  next
    case False
    with a have "a < length (heap t)" by simp
    from capacity_butD [OF cap this] False node a show ?thesis
      by (simp add: entries_split_node)
  qed
qed

lemma capacity_new_root_over:
  assumes cap: "capacity t" and m: "2 \<le> max_entries t"
    and eq: "new_root_over t node new_node = Inr t'"
    and node: "node < length (heap t)" and new: "new_node < length (heap t)"
  shows "capacity t'"
proof (rule capacityI)
  note f = new_root_over_fields [OF eq node new]
  fix a assume "a < length (heap t')"
  then have a: "a \<le> length (heap t)" by (simp add: f)
  show "int (length (entries (heap t' ! a))) \<le> max_entries t'"
  proof (cases "a = length (heap t)")
    case True
    from f(6) obtain r1 r2
      where "entries (heap t' ! length (heap t)) = [(r1, Child node), (r2, Child new_node)]"
      by blast
    with True m show ?thesis by (simp add: f)
  next
    case False
    with a have a': "a < length (heap t)" by simp
    from capacityD [OF cap a'] f(7) [OF a'] show ?thesis by (simp add: f)
  qed
qed

subsection \<open>The repair of an overflow and the base insertion\<close>

lemma same_frame_refl [simp]: "same_frame t t"
  by (simp add: same_frame_def)

lemma same_frame_trans: "same_frame t t1 \<Longrightarrow> same_frame t1 t2 \<Longrightarrow> same_frame t t2"
  by (simp add: same_frame_def)

lemma same_frame_heap:
  "length (heap t) \<le> length h \<Longrightarrow> same_frame t (t\<lparr>heap := h\<rparr>)"
  by (simp add: same_frame_def)

lemma adjust_after_split_returns:
  assumes "wf_lvl lvl t" and "node < length (heap t)"
  shows "returns (adjust_after_split t node)
           (\<lambda>t'. (\<exists>lvl'. wf_lvl lvl' t') \<and> same_frame t t' \<and>
                 (2 \<le> max_entries t \<longrightarrow> capacity_but t node \<longrightarrow> capacity t'))"
  using assms
proof (induction "lvl (root t) - lvl node" arbitrary: t lvl node rule: less_induct)
  case less
  let ?n = "length (heap t)"
  define t1 where "t1 = fst (split_node t node)"
  define lvl1 where "lvl1 = lvl(?n := lvl node)"
  have wf: "wf_lvl lvl t" and node: "node < ?n" by fact+
  have sp: "split_node t node = (t1, ?n)" by (simp add: t1_def prod_eq_iff)
  have wf1: "wf_lvl lvl1 t1" unfolding lvl1_def t1_def by (rule wf_split_node [OF wf node])
  have len1: "length (heap t1) = Suc ?n" by (simp add: t1_def)
  have fr1: "same_frame t t1" by (simp add: same_frame_def t1_def)
  have root1: "root t1 = root t" by (simp add: t1_def)
  have max1: "max_entries t1 = max_entries t" by (simp add: t1_def)
  have cap1: "capacity t1" if "2 \<le> max_entries t" and "capacity_but t node"
    unfolding t1_def using that by (intro capacity_split_node node) simp_all
  have node1: "node < length (heap t1)" and new1: "?n < length (heap t1)"
    using node by (simp_all add: len1)
  have lvl1_node: "lvl1 node = lvl node" and lvl1_new: "lvl1 ?n = lvl node"
    using node by (simp_all add: lvl1_def)
  have lvl1_root: "lvl1 (root t1) = lvl (root t)"
    using wf_lvl_root [OF wf] by (simp add: lvl1_def root1)
  have unf: "adjust_after_split t node =
      (if node = root t1 then Some (new_root_over t1 node ?n)
       else (case parent (heap t1 ! node) of
                None \<Rightarrow> Some (Inl AttributeError)
              | Some p \<Rightarrow>
                  (case Node_mbr (heap t1 ! ?n) of
                     Inl e \<Rightarrow> Some (Inl e)
                   | Inr m \<Rightarrow>
                       if int (length (entries (Node_add (heap t1) p m (Child ?n) ! p))) > max_entries t1
                       then adjust_after_split (t1\<lparr>heap := Node_add (heap t1) p m (Child ?n)\<rparr>) p
                       else Some (Inr (t1\<lparr>heap := Node_add (heap t1) p m (Child ?n)\<rparr>)))))"
    by (subst adjust_after_split.simps)
      (simp add: sp Let_def split: option.split sum.split)
  show ?case
  proof (cases "node = root t1")
    case True
    have eq: "adjust_after_split t node = Some (new_root_over t1 node ?n)"
      unfolding unf by (rule if_P [OF True])
    show ?thesis
    proof (cases "new_root_over t1 node ?n")
      case (Inl e)
      then show ?thesis by (simp add: eq)
    next
      case (Inr t')
      note f = new_root_over_fields [OF Inr node1 new1]
      have "wf_lvl (lvl1(Suc ?n := Suc (lvl1 (root t1)))) t'"
        by (rule wf_new_root_over [OF wf1 Inr node1 new1]) (simp_all add: len1)
      then have w: "\<exists>lvl'. wf_lvl lvl' t'" by blast
      have "same_frame t1 t'" by (simp add: same_frame_def f)
      with fr1 have fr: "same_frame t t'" by (rule same_frame_trans)
      have c: "capacity t'" if "2 \<le> max_entries t" and "capacity_but t node"
        using capacity_new_root_over [OF cap1 [OF that] _ Inr node1 new1] that(1)
        by (simp add: max1)
      from w fr c show ?thesis by (simp add: eq Inr)
    qed
  next
    case False
    have eq: "adjust_after_split t node =
        (case parent (heap t1 ! node) of
           None \<Rightarrow> Some (Inl AttributeError)
         | Some p \<Rightarrow>
             (case Node_mbr (heap t1 ! ?n) of
                Inl e \<Rightarrow> Some (Inl e)
              | Inr m \<Rightarrow>
                  if int (length (entries (Node_add (heap t1) p m (Child ?n) ! p))) > max_entries t1
                  then adjust_after_split (t1\<lparr>heap := Node_add (heap t1) p m (Child ?n)\<rparr>) p
                  else Some (Inr (t1\<lparr>heap := Node_add (heap t1) p m (Child ?n)\<rparr>))))"
      unfolding unf by (rule if_not_P [OF False])
    show ?thesis
    proof (cases "parent (heap t1 ! node)")
      case None
      then show ?thesis by (simp add: eq)
    next
      case (Some p)
      from wf_lvl_parent [OF wf1 node1 Some]
      have p: "p < length (heap t1)" "lvl1 node < lvl1 p" "\<not> leaf (heap t1 ! p)"
        by simp_all
      show ?thesis
      proof (cases "Node_mbr (heap t1 ! ?n)")
        case (Inl e)
        then show ?thesis by (simp add: eq Some)
      next
        case (Inr m)
        define t2 where "t2 = t1\<lparr>heap := Node_add (heap t1) p m (Child ?n)\<rparr>"
        have wf2: "wf_lvl lvl1 t2"
          unfolding t2_def using p lvl1_node lvl1_new
          by (intro wf_Node_add_Child [OF wf1 p(1) new1]) simp_all
        have "same_frame t1 t2" by (simp add: same_frame_def t2_def)
        with fr1 have fr2: "same_frame t t2" by (rule same_frame_trans)
        have p2: "p < length (heap t2)" using p(1) by (simp add: t2_def)
        have cap2: "capacity_but t2 p" if "2 \<le> max_entries t" and "capacity_but t node"
          unfolding t2_def by (rule capacity_Node_add [OF cap1 [OF that] p(1)])
        have max2: "max_entries t2 = max_entries t" by (simp add: t2_def max1)
        show ?thesis
        proof (cases "int (length (entries (heap t2 ! p))) > max_entries t2")
          case True
          have eq2: "adjust_after_split t node = adjust_after_split t2 p"
            using True by (simp add: eq Some Inr t2_def)
          have "lvl1 p \<le> lvl1 (root t1)" by (rule wf_lvl_le [OF wf1 p(1)])
          with p(2) have "lvl1 (root t2) - lvl1 p < lvl (root t) - lvl node"
            by (simp add: t2_def lvl1_root lvl1_node)
          from less.hyps [OF this wf2 p2]
          have "returns (adjust_after_split t2 p)
             (\<lambda>t'. (\<exists>lvl'. wf_lvl lvl' t') \<and> same_frame t2 t' \<and>
                   (2 \<le> max_entries t2 \<longrightarrow> capacity_but t2 p \<longrightarrow> capacity t'))" .
          then show ?thesis
            unfolding eq2
          proof (rule returns_weaken)
            fix t' assume *: "(\<exists>lvl'. wf_lvl lvl' t') \<and> same_frame t2 t' \<and>
                   (2 \<le> max_entries t2 \<longrightarrow> capacity_but t2 p \<longrightarrow> capacity t')"
            then have "same_frame t2 t'" by simp
            with fr2 have "same_frame t t'" by (rule same_frame_trans)
            with * cap2 show "(\<exists>lvl'. wf_lvl lvl' t') \<and> same_frame t t' \<and>
                   (2 \<le> max_entries t \<longrightarrow> capacity_but t node \<longrightarrow> capacity t')"
              by (simp add: max2)
          qed
        next
          case False
          have eq2: "adjust_after_split t node = Some (Inr t2)"
            using False by (simp add: eq Some Inr t2_def)
          have c: "capacity t2" if "2 \<le> max_entries t" and "capacity_but t node"
            by (rule capacity_but_capacity [OF cap2 [OF that] False])
          from wf2 have "\<exists>lvl'. wf_lvl lvl' t2" by blast
          with fr2 c show ?thesis by (simp add: eq2)
        qed
      qed
    qed
  qed
qed

lemma RTree_insert_returns:
  assumes wf: "wf_lvl lvl t"
  shows "returns (RTree_insert t rect (Data i d))
           (\<lambda>t'. (\<exists>lvl'. wf_lvl lvl' t') \<and> same_frame t t' \<and>
                 (2 \<le> max_entries t \<longrightarrow> capacity t \<longrightarrow> capacity t'))"
  unfolding RTree_insert_def
proof (rule returns_bind [OF choose_leaf_returns [OF wf wf_lvl_root [OF wf]]])
  fix lf assume lf: "lf < length (heap t) \<and> leaf (heap t ! lf)"
  define t1 where "t1 = t\<lparr>heap := Node_add (heap t) lf rect (Data i d)\<rparr>"
  have wf1: "wf_lvl lvl t1"
    unfolding t1_def using lf by (intro wf_Node_add_Data [OF wf]) simp_all
  have fr1: "same_frame t t1" by (simp add: same_frame_def t1_def)
  have lf1: "lf < length (heap t1)" using lf by (simp add: t1_def)
  have max1: "max_entries t1 = max_entries t" by (simp add: t1_def)
  have cap1: "capacity_but t1 lf" if "capacity t"
    unfolding t1_def using that lf by (intro capacity_Node_add) simp_all
  have "returns (if int (length (entries (heap t1 ! lf))) > max_entries t1
                 then adjust_after_split t1 lf else Some (Inr t1))
          (\<lambda>t'. (\<exists>lvl'. wf_lvl lvl' t') \<and> same_frame t t' \<and>
                (2 \<le> max_entries t \<longrightarrow> capacity t \<longrightarrow> capacity t'))"
  proof (cases "int (length (entries (heap t1 ! lf))) > max_entries t1")
    case True
    have "returns (adjust_after_split t1 lf)
          (\<lambda>t'. (\<exists>lvl'. wf_lvl lvl' t') \<and> same_frame t t' \<and>
                (2 \<le> max_entries t \<longrightarrow> capacity t \<longrightarrow> capacity t'))"
    proof (rule returns_weaken [OF adjust_after_split_returns [OF wf1 lf1]])
      fix t' assume *: "(\<exists>lvl'. wf_lvl lvl' t') \<and> same_frame t1 t' \<and>
                (2 \<le> max_entries t1 \<longrightarrow> capacity_but t1 lf \<longrightarrow> capacity t')"
      then have "same_frame t1 t'" by simp
      with fr1 have "same_frame t t'" by (rule same_frame_trans)
      with * cap1 show "(\<exists>lvl'. wf_lvl lvl' t') \<and> same_frame t t' \<and>
                (2 \<le> max_entries t \<longrightarrow> capacity t \<longrightarrow> capacity t')"
        by (simp add: max1)
    qed
    with True show ?thesis by simp
  next
    case False
    have c: "capacity t1" if "capacity t"
      by (rule capacity_but_capacity [OF cap1 [OF that] False])
    from wf1 have "\<exists>lvl'. wf_lvl lvl' t1" by blast
    with fr1 c False show ?thesis by simp
  qed
  then show "returns (let t1 = t\<lparr>heap := Node_add (heap t) lf rect (Data i d)\<rparr>
                in if int (length (entries (heap t1 ! lf))) > max_entries t1
                   then adjust_after_split t1 lf else Some (Inr t1))
          (\<lambda>t'. (\<exists>lvl'. wf_lvl lvl' t') \<and> same_frame t t' \<and>
                (2 \<le> max_entries t \<longrightarrow> capacity t \<longrightarrow> capacity t'))"
    unfolding Let_def t1_def .
qed

subsection \<open>The refresh of the bounding rectangles\<close>

lemma length_replace_first [simp]: "length (replace_first node m es) = length es"
  by (induction es) (auto split: prod.split)

lemma slots_replace_first [simp]: "snd ` set (replace_first node m es) = snd ` set es"
  by (induction node m es rule: replace_first.induct) simp_all

lemma bubble_up_mbr_returns:
  assumes "wf_lvl lvl t" and "node < length (heap t)"
  shows "returns (bubble_up_mbr t node)
           (\<lambda>t'. wf_lvl lvl t' \<and> same_frame t t' \<and> (capacity t \<longrightarrow> capacity t'))"
  using assms
proof (induction "lvl (root t) - lvl node" arbitrary: t node rule: less_induct)
  case less
  have wf: "wf_lvl lvl t" and node: "node < length (heap t)" by fact+
  have unf: "bubble_up_mbr t node =
      (case parent (heap t ! node) of
         None \<Rightarrow> Some (Inr t)
       | Some p \<Rightarrow>
           (case Node_mbr (heap t ! node) of
              Inl e \<Rightarrow> Some (Inl e)
            | Inr new_m \<Rightarrow>
                bubble_up_mbr
                  (t\<lparr>heap := (heap t)[p := (heap t ! p)
                       \<lparr>entries := replace_first node new_m (entries (heap t ! p))\<rparr>]\<rparr>) p))"
    by (subst bubble_up_mbr.simps) simp
  show ?case
  proof (cases "parent (heap t ! node)")
    case None
    with wf show ?thesis by (simp add: unf)
  next
    case (Some p)
    from wf_lvl_parent [OF wf node Some]
    have p: "p < length (heap t)" "lvl node < lvl p" by simp_all
    show ?thesis
    proof (cases "Node_mbr (heap t ! node)")
      case (Inl e)
      then show ?thesis by (simp add: unf Some)
    next
      case (Inr new_m)
      define t2 where "t2 = t\<lparr>heap := (heap t)[p := (heap t ! p)
                       \<lparr>entries := replace_first node new_m (entries (heap t ! p))\<rparr>]\<rparr>"
      have eq: "bubble_up_mbr t node = bubble_up_mbr t2 p"
        by (simp add: unf Some Inr t2_def)
      have wf2: "wf_lvl lvl t2"
        by (rule wf_lvl_shape [OF wf]) (simp_all add: t2_def nth_list_update_any slots_def)
      have p2: "p < length (heap t2)" using p(1) by (simp add: t2_def)
      have fr2: "same_frame t t2" by (simp add: same_frame_def t2_def)
      have cap2: "capacity t2" if "capacity t"
      proof (rule capacityI)
        fix a assume "a < length (heap t2)"
        then have "a < length (heap t)" by (simp add: t2_def)
        from capacityD [OF that this]
        show "int (length (entries (heap t2 ! a))) \<le> max_entries t2"
          by (simp add: t2_def nth_list_update_any)
      qed
      have "lvl p \<le> lvl (root t)" by (rule wf_lvl_le [OF wf p(1)])
      with p(2) have "lvl (root t2) - lvl p < lvl (root t) - lvl node"
        by (simp add: t2_def)
      from less.hyps [OF this wf2 p2]
      have "returns (bubble_up_mbr t2 p)
              (\<lambda>t'. wf_lvl lvl t' \<and> same_frame t2 t' \<and> (capacity t2 \<longrightarrow> capacity t'))" .
      then show ?thesis
        unfolding eq
      proof (rule returns_weaken)
        fix t' assume *: "wf_lvl lvl t' \<and> same_frame t2 t' \<and> (capacity t2 \<longrightarrow> capacity t')"
        then have "same_frame t2 t'" by simp
        with fr2 have "same_frame t t'" by (rule same_frame_trans)
        with * cap2 show "wf_lvl lvl t' \<and> same_frame t t' \<and> (capacity t \<longrightarrow> capacity t')"
          by simp
      qed
    qed
  qed
qed

subsection \<open>The forced reinsertion\<close>

lemma evict_subset:
  assumes "evict ratio m es = (to_reinsert, keep)"
  shows "set to_reinsert \<subseteq> set es" and "set keep \<subseteq> set es"
proof -
  define k where "k = nat (min (max 1 (py_round (ratio * of_nat (length es)))) (int (length es) - 1))"
  define f where "f = (\<lambda>rc :: 'a entry. - rank_key ((x1 m + x2 m) / 2) ((y1 m + y2 m) / 2) rc)"
  define tr where "tr = take k (sort_key f es)"
  have "evict ratio m es = (tr, filter (\<lambda>e. e \<notin> set tr) es)"
    by (simp add: evict_def Let_def tr_def k_def f_def)
  with assms have tr: "to_reinsert = tr" and kp: "keep = filter (\<lambda>e. e \<notin> set tr) es"
    by auto
  show "set to_reinsert \<subseteq> set es"
    using set_take_subset [of k "sort_key f es"] by (simp add: tr tr_def)
  show "set keep \<subseteq> set es" by (auto simp: kp)
qed

lemma evict_shrinks:
  assumes ev: "evict ratio m es = (to_reinsert, keep)" and len: "2 \<le> length es"
  shows "length keep < length es"
proof -
  define k where "k = min (max 1 (py_round (ratio * of_nat (length es)))) (int (length es) - 1)"
  define f where "f = (\<lambda>rc :: 'a entry. - rank_key ((x1 m + x2 m) / 2) ((y1 m + y2 m) / 2) rc)"
  define ranked where "ranked = sort_key f es"
  define tr where "tr = take (nat k) ranked"
  have "evict ratio m es = (tr, filter (\<lambda>e. e \<notin> set tr) es)"
    by (simp add: evict_def Let_def tr_def k_def f_def ranked_def)
  with ev have tr: "to_reinsert = tr" and kp: "keep = filter (\<lambda>e. e \<notin> set tr) es"
    by auto
  from len have "1 \<le> k" by (simp add: k_def)
  then have k: "0 < nat k" by simp
  have lr: "length ranked = length es" by (simp add: ranked_def)
  with len have "ranked \<noteq> []" by auto
  then obtain e rest where r: "ranked = e # rest" by (cases ranked) simp_all
  from k obtain j where "nat k = Suc j" by (cases "nat k") simp_all
  with r have e_tr: "e \<in> set tr" by (simp add: tr_def)
  have "e \<in> set ranked" by (simp add: r)
  then have e_es: "e \<in> set es" by (simp add: ranked_def)
  show ?thesis
    unfolding kp using e_tr by (intro length_filter_less [OF e_es]) simp
qed

lemma capacity_capacity_but: "capacity t \<Longrightarrow> capacity_but t node"
proof (rule capacity_butI)
  fix a assume "capacity t" and "a < length (heap t)"
  from capacityD [OF this]
  show "int (length (entries (heap t ! a))) \<le> (if a = node then max_entries t + 1 else max_entries t)"
    by (cases "a = node") simp_all
qed

lemma leaf_slot_is_Data:
  assumes wf: "wf_lvl lvl t" and a: "a < length (heap t)" and lf: "leaf (heap t ! a)"
    and s: "s \<in> slots (heap t ! a)"
  shows "\<exists>i d. s = Data i d"
proof (cases s)
  case (Data i d)
  then show ?thesis by blast
next
  case (Child c)
  with s wf_lvl_child [OF wf a, of c] lf show ?thesis by simp
qed

lemma forced_reinsert_once_returns:
  fixes t :: "'p rstartree"
  assumes wf: "wf_lvl lvl t" and node: "node < length (heap t)" and lf: "leaf (heap t ! node)"
  shows "returns (forced_reinsert_once t node)
           (\<lambda>t'. (\<exists>lvl'. wf_lvl lvl' t') \<and> same_frame t t' \<and>
                 (2 \<le> max_entries t \<longrightarrow> capacity_but t node \<longrightarrow> capacity t'))"
proof (cases "int (length (entries (heap t ! node))) \<le> max_entries t")
  case True
  then have eq: "forced_reinsert_once t node = Some (Inr t)"
    by (simp add: forced_reinsert_once_def Let_def)
  have "capacity t" if "capacity_but t node"
    using capacity_but_capacity [OF that] True by simp
  with wf show ?thesis by (auto simp: eq)
next
  case False
  let ?es = "entries (heap t ! node)"
  show ?thesis
  proof (cases "Node_mbr (heap t ! node)")
    case (Inl e)
    with False show ?thesis by (simp add: forced_reinsert_once_def Let_def)
  next
    case (Inr m)
    obtain to_reinsert keep where ev: "evict (reinsertion_ratio t) m ?es = (to_reinsert, keep)"
      by (cases "evict (reinsertion_ratio t) m ?es")
    define t1 where "t1 = t\<lparr>heap := (heap t)[node := (heap t ! node)\<lparr>entries := keep\<rparr>]\<rparr>"
    define I where "I = (\<lambda>s :: 'p rstartree. (\<exists>lvl'. wf_lvl lvl' s) \<and> same_frame t s \<and>
                 (2 \<le> max_entries t \<longrightarrow> capacity_but t node \<longrightarrow> capacity s))"
    have eq: "forced_reinsert_once t node =
        Option.bind (for_loop to_reinsert (\<lambda>(r, payload) t'. RTree_insert t' r payload) t1)
          (\<lambda>r. case r of Inl e \<Rightarrow> Some (Inl e) | Inr t2 \<Rightarrow> bubble_up_mbr t2 node)"
      using False by (simp add: forced_reinsert_once_def Let_def Inr ev t1_def)
    note sub = evict_subset [OF ev]
    have wf1: "wf_lvl lvl t1"
    proof (rule wf_lvl_shape [OF wf])
      fix a assume "a < length (heap t)"
      show "slots (heap t1 ! a) \<subseteq> slots (heap t ! a)"
        using sub(2) by (auto simp: t1_def nth_list_update_any slots_def)
    qed (simp_all add: t1_def nth_list_update_any)
    have fr1: "same_frame t t1" by (simp add: same_frame_def t1_def)
    have cap1: "capacity t1" if m: "2 \<le> max_entries t" and cb: "capacity_but t node"
    proof (rule capacityI)
      fix a assume "a < length (heap t1)"
      then have a: "a < length (heap t)" by (simp add: t1_def)
      show "int (length (entries (heap t1 ! a))) \<le> max_entries t1"
      proof (cases "a = node")
        case True
        from False m have "2 \<le> length ?es" by simp
        from evict_shrinks [OF ev this] capacity_butD [OF cb node] True node
        show ?thesis by (simp add: t1_def)
      next
        case False
        with capacity_butD [OF cb a] show ?thesis by (simp add: t1_def)
      qed
    qed
    have I1: "I t1" using wf1 fr1 cap1 unfolding I_def by blast
    have step: "returns ((\<lambda>(r, payload) t'. RTree_insert t' r payload) x s) I"
      if x: "x \<in> set to_reinsert" and s: "I s" for x s
    proof -
      obtain r c where xc: "x = (r, c)" by (cases x)
      with x sub(1) have "(r, c) \<in> set (entries (heap t ! node))" by blast
      then have "c \<in> slots (heap t ! node)" unfolding slots_def by (rule image_eqI [rotated]) simp
      from leaf_slot_is_Data [OF wf node lf this] obtain i d where c: "c = Data i d" by blast
      from s obtain lvl' where w: "wf_lvl lvl' s" and fr: "same_frame t s"
        and cp: "2 \<le> max_entries t \<longrightarrow> capacity_but t node \<longrightarrow> capacity s"
        unfolding I_def by blast
      from fr have ms: "max_entries s = max_entries t" by (simp add: same_frame_def)
      have "returns (RTree_insert s r (Data i d)) I"
      proof (rule returns_weaken [OF RTree_insert_returns [OF w]])
        fix t' assume *: "(\<exists>lvl'. wf_lvl lvl' t') \<and> same_frame s t' \<and>
                 (2 \<le> max_entries s \<longrightarrow> capacity s \<longrightarrow> capacity t')"
        then have "same_frame s t'" by simp
        with fr have "same_frame t t'" by (rule same_frame_trans)
        with * cp show "I t'" unfolding I_def by (simp add: ms)
      qed
      then show ?thesis by (simp add: xc c)
    qed
    have loop: "returns (for_loop to_reinsert (\<lambda>(r, payload) t'. RTree_insert t' r payload) t1) I"
      by (rule returns_for_loop [OF I1 step])
    show ?thesis
      unfolding eq
    proof (rule returns_bind [OF loop])
      fix t2 assume "I t2"
      then obtain lvl2 where w2: "wf_lvl lvl2 t2" and fr2: "same_frame t t2"
        and cp2: "2 \<le> max_entries t \<longrightarrow> capacity_but t node \<longrightarrow> capacity t2"
        unfolding I_def by blast
      from fr2 node have n2: "node < length (heap t2)" by (simp add: same_frame_def)
      show "returns (bubble_up_mbr t2 node)
           (\<lambda>t'. (\<exists>lvl'. wf_lvl lvl' t') \<and> same_frame t t' \<and>
                 (2 \<le> max_entries t \<longrightarrow> capacity_but t node \<longrightarrow> capacity t'))"
      proof (rule returns_weaken [OF bubble_up_mbr_returns [OF w2 n2]])
        fix t' assume *: "wf_lvl lvl2 t' \<and> same_frame t2 t' \<and> (capacity t2 \<longrightarrow> capacity t')"
        then have "same_frame t2 t'" by simp
        with fr2 have "same_frame t t'" by (rule same_frame_trans)
        with * cp2 show "(\<exists>lvl'. wf_lvl lvl' t') \<and> same_frame t t' \<and>
                 (2 \<le> max_entries t \<longrightarrow> capacity_but t node \<longrightarrow> capacity t')"
          by blast
      qed
    qed
  qed
qed

lemma RStarTree_insert_returns:
  fixes t :: "'p rstartree"
  assumes wf: "wf_lvl lvl t"
  shows "returns (RStarTree_insert t rect (Data i d))
           (\<lambda>t'. (\<exists>lvl'. wf_lvl lvl' t') \<and> same_frame t t' \<and>
                 (2 \<le> max_entries t \<longrightarrow> capacity t \<longrightarrow> capacity t'))"
  unfolding RStarTree_insert_def
proof (rule returns_bind [OF choose_leaf_returns [OF wf wf_lvl_root [OF wf]]])
  fix lf assume lf: "lf < length (heap t) \<and> leaf (heap t ! lf)"
  define t1 where "t1 = t\<lparr>heap := Node_add (heap t) lf rect (Data i d)\<rparr>"
  define Q where "Q = (\<lambda>t' :: 'p rstartree. (\<exists>lvl'. wf_lvl lvl' t') \<and> same_frame t t' \<and>
                (2 \<le> max_entries t \<longrightarrow> capacity t \<longrightarrow> capacity t'))"
  have wf1: "wf_lvl lvl t1"
    unfolding t1_def using lf by (intro wf_Node_add_Data [OF wf]) simp_all
  have fr1: "same_frame t t1" by (simp add: same_frame_def t1_def)
  have lf1: "lf < length (heap t1)" "leaf (heap t1 ! lf)" using lf by (simp_all add: t1_def)
  have max1: "max_entries t1 = max_entries t" by (simp add: t1_def)
  have cap1: "capacity_but t1 lf" if "capacity t"
    unfolding t1_def using that lf by (intro capacity_Node_add) simp_all
  have first: "returns (if int (length (entries (heap t1 ! lf))) > max_entries t1
                        then forced_reinsert_once t1 lf else Some (Inr t1)) Q"
  proof (cases "int (length (entries (heap t1 ! lf))) > max_entries t1")
    case True
    have "returns (forced_reinsert_once t1 lf) Q"
    proof (rule returns_weaken [OF forced_reinsert_once_returns [OF wf1 lf1]])
      fix t' assume *: "(\<exists>lvl'. wf_lvl lvl' t') \<and> same_frame t1 t' \<and>
                 (2 \<le> max_entries t1 \<longrightarrow> capacity_but t1 lf \<longrightarrow> capacity t')"
      then have "same_frame t1 t'" by simp
      with fr1 have "same_frame t t'" by (rule same_frame_trans)
      with * cap1 show "Q t'" unfolding Q_def by (simp add: max1)
    qed
    with True show ?thesis by simp
  next
    case False
    have "capacity t1" if "capacity t"
      by (rule capacity_but_capacity [OF cap1 [OF that] False])
    with wf1 fr1 have "Q t1" unfolding Q_def by blast
    with False show ?thesis by simp
  qed
  have second: "returns (if int (length (entries (heap t2 ! lf))) > max_entries t2
                         then adjust_after_split t2 lf else bubble_up_mbr t2 lf) Q"
    if "Q t2" for t2
  proof -
    from that obtain lvl2 where w2: "wf_lvl lvl2 t2" and fr2: "same_frame t t2"
      and cp2: "2 \<le> max_entries t \<longrightarrow> capacity t \<longrightarrow> capacity t2"
      unfolding Q_def by blast
    from fr2 lf have n2: "lf < length (heap t2)" by (simp add: same_frame_def)
    from fr2 have max2: "max_entries t2 = max_entries t" by (simp add: same_frame_def)
    show ?thesis
    proof (cases "int (length (entries (heap t2 ! lf))) > max_entries t2")
      case True
      have "returns (adjust_after_split t2 lf) Q"
      proof (rule returns_weaken [OF adjust_after_split_returns [OF w2 n2]])
        fix t' assume *: "(\<exists>lvl'. wf_lvl lvl' t') \<and> same_frame t2 t' \<and>
                 (2 \<le> max_entries t2 \<longrightarrow> capacity_but t2 lf \<longrightarrow> capacity t')"
        then have "same_frame t2 t'" by simp
        with fr2 have "same_frame t t'" by (rule same_frame_trans)
        with * cp2 capacity_capacity_but [of t2 lf] show "Q t'"
          unfolding Q_def by (auto simp: max2)
      qed
      with True show ?thesis by simp
    next
      case False
      have "returns (bubble_up_mbr t2 lf) Q"
      proof (rule returns_weaken [OF bubble_up_mbr_returns [OF w2 n2]])
        fix t' assume *: "wf_lvl lvl2 t' \<and> same_frame t2 t' \<and> (capacity t2 \<longrightarrow> capacity t')"
        then have "same_frame t2 t'" by simp
        with fr2 have "same_frame t t'" by (rule same_frame_trans)
        with * cp2 show "Q t'" unfolding Q_def by blast
      qed
      with False show ?thesis by simp
    qed
  qed
  have "returns (Option.bind
          (if int (length (entries (heap t1 ! lf))) > max_entries t1
           then forced_reinsert_once t1 lf else Some (Inr t1))
          (\<lambda>r. case r of
                 Inl e \<Rightarrow> Some (Inl e)
               | Inr t2 \<Rightarrow>
                   if int (length (entries (heap t2 ! lf))) > max_entries t2
                   then adjust_after_split t2 lf else bubble_up_mbr t2 lf)) Q"
    by (rule returns_bind [OF first second])
  then show "returns (let t1 = t\<lparr>heap := Node_add (heap t) lf rect (Data i d)\<rparr>
       in Option.bind
            (if int (length (entries (heap t1 ! lf))) > max_entries t1
             then forced_reinsert_once t1 lf else Some (Inr t1))
            (\<lambda>r. case r of
                   Inl e \<Rightarrow> Some (Inl e)
                 | Inr t2 \<Rightarrow>
                     if int (length (entries (heap t2 ! lf))) > max_entries t2
                     then adjust_after_split t2 lf else bubble_up_mbr t2 lf))
       (\<lambda>t'. (\<exists>lvl'. wf_lvl lvl' t') \<and> same_frame t t' \<and>
                 (2 \<le> max_entries t \<longrightarrow> capacity t \<longrightarrow> capacity t'))"
    unfolding Let_def t1_def Q_def .
qed

subsection \<open>The range query\<close>

lemma wf_lvl_node_visits [simp]: "wf_lvl lvl (t\<lparr>node_visits := k\<rparr>) = wf_lvl lvl t"
  by (simp add: wf_lvl_def)

lemma range_query_total:
  assumes "wf_lvl lvl t" and "a < length (heap t)"
  shows "\<exists>out ns. range_query t w (Some a)
             = Some (Inr (out, t\<lparr>node_visits := node_visits t + Suc (length ns)\<rparr>)) \<and>
           nodes_entered (heap t) w a = Some (Inr (a # ns))"
  using assms
proof (induction "lvl a" arbitrary: a t rule: less_induct)
  case less
  have wf: "wf_lvl lvl t" and a: "a < length (heap t)" by fact+
  let ?es = "entries (heap t ! a)"
  let ?rq = "\<lambda>(r, c) (out, t').
              if \<not> intersects w r then Some (Inr (out, t'))
              else if leaf (heap t ! a) then Some (Inr (out @ [c], t'))
              else (case c of
                      Data i d \<Rightarrow> Some (Inl AttributeError)
                    | Child ch \<Rightarrow>
                        Option.bind (range_query t' w (Some ch))
                          (\<lambda>r. case r of
                                 Inl e \<Rightarrow> Some (Inl e)
                               | Inr (res, t'') \<Rightarrow> Some (Inr (out @ res, t''))))"
  let ?ne = "\<lambda>(r, c) ns.
          if \<not> intersects w r then Some (Inr ns)
          else if leaf (heap t ! a) then Some (Inr ns)
          else (case c of
                  Data i d \<Rightarrow> Some (Inl AttributeError)
                | Child ch \<Rightarrow>
                    Option.bind (nodes_entered (heap t) w ch)
                      (\<lambda>r. case r of
                             Inl e \<Rightarrow> Some (Inl e)
                           | Inr ms \<Rightarrow> Some (Inr (ns @ ms))))"
  have inner: "\<exists>out' ms. for_loop xs ?rq (out, t\<lparr>node_visits := k\<rparr>)
                   = Some (Inr (out', t\<lparr>node_visits := k + length ms\<rparr>)) \<and>
                 for_loop xs ?ne ns = Some (Inr (ns @ ms))"
    if "set xs \<subseteq> set ?es" for xs out k ns
    using that
  proof (induction xs arbitrary: out k ns)
    case Nil
    show ?case by simp
  next
    case (Cons x xs)
    obtain r c where x: "x = (r, c)" by (cases x)
    from Cons.prems have xs: "set xs \<subseteq> set ?es" and xin: "(r, c) \<in> set ?es"
      by (simp_all add: x)
    have "\<exists>out1 ms1. ?rq x (out, t\<lparr>node_visits := k\<rparr>)
              = Some (Inr (out1, t\<lparr>node_visits := k + length ms1\<rparr>)) \<and>
            ?ne x ns = Some (Inr (ns @ ms1))"
    proof (cases "\<not> intersects w r \<or> leaf (heap t ! a)")
      case True
      then have "?rq x (out, t\<lparr>node_visits := k\<rparr>)
              = Some (Inr (if intersects w r then out @ [c] else out,
                           t\<lparr>node_visits := k + length ([] :: addr list)\<rparr>)) \<and>
            ?ne x ns = Some (Inr (ns @ []))"
        by (auto simp: x)
      then show ?thesis by blast
    next
      case False
      from xin have "c \<in> slots (heap t ! a)"
        unfolding slots_def by (rule image_eqI [rotated]) simp
      with False wf_lvl_data [OF wf a] obtain ch where c: "c = Child ch"
        by (cases c) auto
      with \<open>c \<in> slots (heap t ! a)\<close> wf_lvl_child [OF wf a, of ch]
      have ch: "ch < length (heap t)" "lvl ch < lvl a" by simp_all
      from less.hyps [OF ch(2), of "t\<lparr>node_visits := k\<rparr>"] wf ch(1)
      obtain res ms where
        rq: "range_query (t\<lparr>node_visits := k\<rparr>) w (Some ch)
               = Some (Inr (res, t\<lparr>node_visits := k + Suc (length ms)\<rparr>))"
        and ne: "nodes_entered (heap t) w ch = Some (Inr (ch # ms))"
        by auto
      from False have "?rq x (out, t\<lparr>node_visits := k\<rparr>)
              = Some (Inr (out @ res, t\<lparr>node_visits := k + length (ch # ms)\<rparr>)) \<and>
            ?ne x ns = Some (Inr (ns @ (ch # ms)))"
        by (simp add: x c rq ne)
      then show ?thesis by blast
    qed
    then obtain out1 ms1 where
      s1: "?rq x (out, t\<lparr>node_visits := k\<rparr>)
              = Some (Inr (out1, t\<lparr>node_visits := k + length ms1\<rparr>))"
      and s2: "?ne x ns = Some (Inr (ns @ ms1))"
      by blast
    from Cons.IH [OF xs, of out1 "k + length ms1" "ns @ ms1"]
    obtain out' ms where
      r1: "for_loop xs ?rq (out1, t\<lparr>node_visits := k + length ms1\<rparr>)
             = Some (Inr (out', t\<lparr>node_visits := k + length ms1 + length ms\<rparr>))"
      and r2: "for_loop xs ?ne (ns @ ms1) = Some (Inr ((ns @ ms1) @ ms))"
      by blast
    have "for_loop (x # xs) ?rq (out, t\<lparr>node_visits := k\<rparr>)
              = Some (Inr (out', t\<lparr>node_visits := k + length (ms1 @ ms)\<rparr>)) \<and>
          for_loop (x # xs) ?ne ns = Some (Inr (ns @ (ms1 @ ms)))"
      using s1 s2 r1 r2 by (simp add: add.assoc)
    then show ?case by blast
  qed
  from inner [of ?es "[]" "node_visits t + 1" "[a]"]
  obtain out' ms where
    r1: "for_loop ?es ?rq ([], t\<lparr>node_visits := node_visits t + 1\<rparr>)
           = Some (Inr (out', t\<lparr>node_visits := node_visits t + 1 + length ms\<rparr>))"
    and r2: "for_loop ?es ?ne [a] = Some (Inr ([a] @ ms))"
    by auto
  have "range_query t w (Some a)
             = Some (Inr (out', t\<lparr>node_visits := node_visits t + Suc (length ms)\<rparr>))"
    using r1 by (subst range_query.simps) (simp add: visit_def)
  moreover have "nodes_entered (heap t) w a = Some (Inr (a # ms))"
    using r2 by (subst nodes_entered.simps) simp
  ultimately show ?case by blast
qed

lemma range_query_None: "range_query t w None = range_query t w (Some (root t))"
  by (simp add: range_query.simps [of t w None] range_query.simps [of t w "Some (root t)"])

lemma capacity_node_visits [simp]: "capacity (t\<lparr>node_visits := k\<rparr>) = capacity t"
  by (simp add: capacity_def)

lemma wf_lvl_empty:
  assumes "heap t = [Node True]" and "root t = 0"
  shows "wf_lvl (\<lambda>a. 0) t" and "0 \<le> max_entries t \<Longrightarrow> capacity t"
proof -
  show "wf_lvl (\<lambda>a. 0) t"
    by (rule wf_lvlI) (simp_all add: assms Node_def slots_def)
  show "0 \<le> max_entries t \<Longrightarrow> capacity t"
    by (rule capacityI) (simp add: assms Node_def)
qed

lemma query_counts:
  assumes wf: "wf_lvl lvl t"
  shows "\<exists>out ns. range_query t w None
             = Some (Inr (out, t\<lparr>node_visits := node_visits t + length ns\<rparr>)) \<and>
           nodes_entered (heap t) w (root t) = Some (Inr ns) \<and> ns \<noteq> [] \<and> hd ns = root t"
proof -
  from range_query_total [OF wf wf_lvl_root [OF wf], of w] obtain out ns where
    "range_query t w (Some (root t))
       = Some (Inr (out, t\<lparr>node_visits := node_visits t + Suc (length ns)\<rparr>))"
    and "nodes_entered (heap t) w (root t) = Some (Inr (root t # ns))"
    by blast
  then have "range_query t w None
             = Some (Inr (out, t\<lparr>node_visits := node_visits t + length (root t # ns)\<rparr>)) \<and>
           nodes_entered (heap t) w (root t) = Some (Inr (root t # ns)) \<and> root t # ns \<noteq> [] \<and>
           hd (root t # ns) = root t"
    by (simp add: range_query_None)
  then show ?thesis by blast
qed

section \<open>The states of a run\<close>

lemma state_inv_query:
  assumes "state_inv t" and "range_query t w None = Some (Inr (out, t'))"
  shows "state_inv t'"
proof -
  from assms(1) obtain lvl where wf: "wf_lvl lvl t" unfolding state_inv_def by blast
  from query_counts [OF wf, of w] obtain out' and ns :: "addr list"
    where "range_query t w None
             = Some (Inr (out', t\<lparr>node_visits := node_visits t + length ns\<rparr>))"
    by blast
  with assms(2) have "t' = t\<lparr>node_visits := node_visits t + length ns\<rparr>" by simp
  with assms(1) show ?thesis by (auto simp: state_inv_def)
qed

lemma state_inv_post:
  assumes inv: "state_inv t"
    and post: "(\<exists>lvl'. wf_lvl lvl' t') \<and> same_frame t t' \<and>
                 (2 \<le> max_entries t \<longrightarrow> capacity t \<longrightarrow> capacity t')"
  shows "state_inv t'"
proof -
  from post have "max_entries t' = max_entries t" by (simp add: same_frame_def)
  with inv post show ?thesis unfolding state_inv_def by auto
qed

lemma rtree_state_inv: "rtree_state t \<Longrightarrow> state_inv t"
proof (induction rule: rtree_state.induct)
  case (init m t)
  then have "heap t = [Node True]" "root t = 0" by (auto simp: RTree_init_def)
  from wf_lvl_empty [OF this] show ?case unfolding state_inv_def by auto
next
  case (insert t rect i d t')
  from insert.IH obtain lvl where wf: "wf_lvl lvl t" unfolding state_inv_def by blast
  from returnsD [OF RTree_insert_returns [OF wf] insert.hyps(2)] insert.IH
  show ?case by (rule state_inv_post [rotated])
next
  case (query t w out t')
  then show ?case by (blast intro: state_inv_query)
next
  case (reset t)
  then show ?case by (auto simp: state_inv_def reset_def)
qed

lemma rstartree_state_inv: "rstartree_state t \<Longrightarrow> state_inv t"
proof (induction rule: rstartree_state.induct)
  case (init m ratio t)
  then have "heap t = [Node True]" "root t = 0" by (auto simp: RStarTree_init_def)
  from wf_lvl_empty [OF this] show ?case unfolding state_inv_def by auto
next
  case (insert t rect i d t')
  from insert.IH obtain lvl where wf: "wf_lvl lvl t" unfolding state_inv_def by blast
  from returnsD [OF RStarTree_insert_returns [OF wf] insert.hyps(2)] insert.IH
  show ?case by (rule state_inv_post [rotated])
next
  case (query t w out t')
  then show ?case by (blast intro: state_inv_query)
next
  case (reset t)
  then show ?case by (auto simp: state_inv_def reset_def)
qed

lemma reachable_in_heap:
  assumes wf: "wf_lvl lvl t" and "a \<in> reachable t"
  shows "a < length (heap t)"
  using assms(2)
proof (induction rule: reachable.induct)
  case root
  show ?case by (rule wf_lvl_root [OF wf])
next
  case (child a r c)
  have "Child c \<in> slots (heap t ! a)"
    unfolding slots_def using child.hyps(2) by (rule image_eqI [rotated]) simp
  from wf_lvl_child [OF wf child.IH this] show ?case by simp
qed

lemma rtree_state_inserts:
  "rtree_state t \<Longrightarrow> RTree_inserts t xs = Some (Inr t') \<Longrightarrow> rtree_state t'"
proof (induction xs arbitrary: t)
  case Nil
  then show ?case by (simp add: RTree_inserts_def)
next
  case (Cons x xs)
  obtain i r d where x: "x = (i, r, d)" by (cases x)
  from Cons.prems(2) obtain t1 where
    one: "RTree_insert t r (Data i d) = Some (Inr t1)" and rest: "RTree_inserts t1 xs = Some (Inr t')"
    by (auto simp: RTree_inserts_def x split: Option.bind_splits sum.splits)
  from rtree_state.insert [OF Cons.prems(1) one] rest show ?case by (rule Cons.IH)
qed

lemma rstartree_state_inserts:
  "rstartree_state t \<Longrightarrow> RStarTree_inserts t xs = Some (Inr t') \<Longrightarrow> rstartree_state t'"
proof (induction xs arbitrary: t)
  case Nil
  then show ?case by (simp add: RStarTree_inserts_def)
next
  case (Cons x xs)
  obtain i r d where x: "x = (i, r, d)" by (cases x)
  from Cons.prems(2) obtain t1 where
    one: "RStarTree_insert t r (Data i d) = Some (Inr t1)"
    and rest: "RStarTree_inserts t1 xs = Some (Inr t')"
    by (auto simp: RStarTree_inserts_def x split: Option.bind_splits sum.splits)
  from rstartree_state.insert [OF Cons.prems(1) one] rest show ?case by (rule Cons.IH)
qed

subsection \<open>The example runs\<close>

lemma five_tree_state: "rtree_state five_tree"
proof -
  have "RTree_init 4 = Inr (\<lparr>max_entries = 4, root = 0, node_visits = 0, heap = [Node True]\<rparr> :: nat rtree)"
    by (simp add: RTree_init_def)
  then have "rtree_state (\<lparr>max_entries = 4, root = 0, node_visits = 0, heap = [Node True]\<rparr> :: nat rtree)"
    by (rule rtree_state.init)
  moreover have "RTree_inserts (\<lparr>max_entries = 4, root = 0, node_visits = 0, heap = [Node True]\<rparr> :: nat rtree)
      (take 5 six_points) = Some (Inr five_tree)"
    by code_simp
  ultimately show ?thesis by (rule rtree_state_inserts)
qed

lemma five_tree_insert:
  "RTree_insert five_tree (Rect 10 10 10 10) (Data 5 5) = Some (Inr six_tree)"
  by code_simp

lemma six_tree_state: "rtree_state six_tree"
  by (rule rtree_state.insert [OF five_tree_state five_tree_insert])

lemma rstar_five_state: "rstartree_state rstar_five"
proof -
  have "RStarTree_init 4 (3 / 10) = Inr rstar_4"
    by (simp add: RStarTree_init_def rstar_4_def)
  then have "rstartree_state rstar_4"
    by (rule rstartree_state.init)
  moreover have "RStarTree_inserts rstar_4 (take 5 six_points) = Some (Inr rstar_five)"
    by code_simp
  ultimately show ?thesis by (rule rstartree_state_inserts)
qed

lemma rstar_five_insert:
  "RStarTree_insert rstar_five (Rect 10 10 10 10) (Data 5 5) = Some (Inr rstar_six)"
  by code_simp

section \<open>The capacity of the reachable nodes\<close>

text \<open>
  C3. In every state of an index whose capacity is at least 2, base or reinsertion
  variant, every node reachable from the root holds at most \<open>max_entries\<close> entries.
  The states of an index are those its calls return: the constructor, \<open>insert\<close>,
  \<open>range_query\<close> and \<open>_reset\<close>; so the bound holds whenever an \<open>insert\<close> has returned.
\<close>

theorem capacity_bound:
  "(rtree_state t \<and> 2 \<le> max_entries t \<and> a \<in> reachable t \<longrightarrow>
      int (length (entries (heap t ! a))) \<le> max_entries t) \<and>
   (rstartree_state s \<and> 2 \<le> max_entries s \<and> b \<in> reachable s \<longrightarrow>
      int (length (entries (heap s ! b))) \<le> max_entries s)"
proof (intro conjI impI)
  assume *: "rtree_state t \<and> 2 \<le> max_entries t \<and> a \<in> reachable t"
  then have "state_inv t" by (simp add: rtree_state_inv)
  with * obtain lvl where wf: "wf_lvl lvl t" and cap: "capacity t"
    unfolding state_inv_def by blast
  from * have "a \<in> reachable t" by simp
  from capacityD [OF cap reachable_in_heap [OF wf this]]
  show "int (length (entries (heap t ! a))) \<le> max_entries t" .
next
  assume *: "rstartree_state s \<and> 2 \<le> max_entries s \<and> b \<in> reachable s"
  then have "state_inv s" by (simp add: rstartree_state_inv)
  with * obtain lvl where wf: "wf_lvl lvl s" and cap: "capacity s"
    unfolding state_inv_def by blast
  from * have "b \<in> reachable s" by simp
  from capacityD [OF cap reachable_in_heap [OF wf this]]
  show "int (length (entries (heap s ! b))) \<le> max_entries s" .
qed

text \<open>
  The hypotheses of C3 hold in the base index after the six insertions, where the second
  leaf is full, and in the reinsertion variant after the same insertions.
\<close>

theorem capacity_bound_witness:
  "rtree_state six_tree \<and> 2 \<le> max_entries six_tree \<and> 1 \<in> reachable six_tree \<and>
   int (length (entries (heap six_tree ! 1))) \<le> max_entries six_tree \<and>
   length (entries (heap six_tree ! 1)) = 4 \<and>
   rstartree_state rstar_six \<and> 2 \<le> max_entries rstar_six \<and> 0 \<in> reachable rstar_six \<and>
   int (length (entries (heap rstar_six ! 0))) \<le> max_entries rstar_six"
proof -
  have m: "2 \<le> max_entries six_tree" "2 \<le> max_entries rstar_six"
    by (simp_all add: six_tree_def rstar_six_def)
  have "(Rect 2 2 4 4, Child 1) \<in> set (entries (heap six_tree ! root six_tree))"
    by (simp add: six_tree_def)
  from reachable.child [OF reachable.root this] have r1: "1 \<in> reachable six_tree" .
  have "(Rect 1 1 10 10, Child 0) \<in> set (entries (heap rstar_six ! root rstar_six))"
    by (simp add: rstar_six_def)
  from reachable.child [OF reachable.root this] have r2: "0 \<in> reachable rstar_six" .
  have s2: "rstartree_state rstar_six"
    by (rule rstartree_state.insert [OF rstar_five_state rstar_five_insert])
  have l: "length (entries (heap six_tree ! 1)) = 4"
    by (simp add: six_tree_def)
  from capacity_bound [of six_tree 1 rstar_six 0] six_tree_state s2 m r1 r2 l
  show ?thesis by blast
qed

lemma state_wf: "state_inv t \<Longrightarrow> \<exists>lvl. wf_lvl lvl t"
  by (simp add: state_inv_def)

section \<open>The single pass of the forced reinsertion\<close>





lemma forced_passes_append [simp]:
  "forced_passes (cs @ cs') = forced_passes cs @ forced_passes cs'"
  by (induction cs rule: forced_passes.induct) simp_all

lemma base_inserts_append [simp]:
  "base_inserts (cs @ cs') = base_inserts cs @ base_inserts cs'"
  by (induction cs rule: base_inserts.induct) simp_all

lemma rstar_inserts_append [simp]:
  "rstar_inserts (cs @ cs') = rstar_inserts cs @ rstar_inserts cs'"
  by (induction cs rule: rstar_inserts.induct) simp_all

lemma calls_of_splits [simp]:
  "forced_passes (map Call_adjust_after_split ns) = []"
  "base_inserts (map Call_adjust_after_split ns) = []"
  "rstar_inserts (map Call_adjust_after_split ns) = []"
  by (induction ns) simp_all

















section \<open>The visit counter\<close>

lemma query_twice:
  assumes wf: "wf_lvl lvl t"
    and q1: "range_query t w None = Some (Inr (o1, t1))"
    and q2: "range_query t1 w' None = Some (Inr (o2, t2))"
  shows "\<exists>ns1 ns2. nodes_entered (heap t) w (root t) = Some (Inr ns1) \<and>
           nodes_entered (heap t) w' (root t) = Some (Inr ns2) \<and>
           node_visits t2 = node_visits t + length ns1 + length ns2"
proof -
  from query_counts [OF wf, of w] obtain out1 and ns1 :: "addr list" where
    a: "range_query t w None
          = Some (Inr (out1, t\<lparr>node_visits := node_visits t + length ns1\<rparr>))"
    and n1: "nodes_entered (heap t) w (root t) = Some (Inr ns1)"
    by blast
  from a q1 have t1: "t1 = t\<lparr>node_visits := node_visits t + length ns1\<rparr>" by simp
  from wf have wf1: "wf_lvl lvl t1" by (simp add: t1)
  from query_counts [OF wf1, of w'] obtain out2 and ns2 :: "addr list" where
    b: "range_query t1 w' None
          = Some (Inr (out2, t1\<lparr>node_visits := node_visits t1 + length ns2\<rparr>))"
    and n2: "nodes_entered (heap t1) w' (root t1) = Some (Inr ns2)"
    by blast
  from b q2 have t2: "t2 = t1\<lparr>node_visits := node_visits t1 + length ns2\<rparr>" by simp
  from n2 have "nodes_entered (heap t) w' (root t) = Some (Inr ns2)" by (simp add: t1)
  with n1 show ?thesis by (auto simp: t1 t2)
qed

lemma insert_keeps_counter:
  assumes "returns r (\<lambda>t'. (\<exists>lvl'. wf_lvl lvl' t') \<and> same_frame t t' \<and> C t')"
    and "r = Some (Inr t')"
  shows "node_visits t' = node_visits t"
  using returnsD [OF assms] by (simp add: same_frame_def)

text \<open>
  C9. In every state of an index, base or reinsertion variant, a window query returns and
  adds to the counter the number of nodes it enters, the root first; it changes nothing
  else of the index. \<open>insert\<close> leaves the counter as it is, \<open>_reset\<close> sets it to 0,
  and two queries in a row add both their counts.
\<close>

theorem node_visits_counter:
  "(rtree_state t \<longrightarrow>
      (\<exists>out ns. range_query t w None
           = Some (Inr (out, t\<lparr>node_visits := node_visits t + length ns\<rparr>)) \<and>
         nodes_entered (heap t) w (root t) = Some (Inr ns) \<and> ns \<noteq> [] \<and> hd ns = root t) \<and>
      (RTree_insert t rect (Data i d) = Some (Inr t') \<longrightarrow> node_visits t' = node_visits t) \<and>
      (range_query t w None = Some (Inr (o1, t1)) \<and>
       range_query t1 w' None = Some (Inr (o2, t2)) \<longrightarrow>
         (\<exists>ns1 ns2. nodes_entered (heap t) w (root t) = Some (Inr ns1) \<and>
            nodes_entered (heap t) w' (root t) = Some (Inr ns2) \<and>
            node_visits t2 = node_visits t + length ns1 + length ns2))) \<and>
   (rstartree_state s \<longrightarrow>
      (\<exists>out ns. range_query s w None
           = Some (Inr (out, s\<lparr>node_visits := node_visits s + length ns\<rparr>)) \<and>
         nodes_entered (heap s) w (root s) = Some (Inr ns) \<and> ns \<noteq> [] \<and> hd ns = root s) \<and>
      (RStarTree_insert s rect (Data i d) = Some (Inr s') \<longrightarrow> node_visits s' = node_visits s) \<and>
      (range_query s w None = Some (Inr (p1, s1)) \<and>
       range_query s1 w' None = Some (Inr (p2, s2)) \<longrightarrow>
         (\<exists>ns1 ns2. nodes_entered (heap s) w (root s) = Some (Inr ns1) \<and>
            nodes_entered (heap s) w' (root s) = Some (Inr ns2) \<and>
            node_visits s2 = node_visits s + length ns1 + length ns2))) \<and>
   node_visits (reset t) = 0 \<and> node_visits (reset s) = 0"
proof -
  have base: ?thesis if wt: "wf_lvl lvl t" and ws: "wf_lvl lvl' s" for lvl lvl'
    using query_counts [OF wt, of w] query_counts [OF ws, of w]
      query_twice [OF wt, of w o1 t1 w' o2 t2] query_twice [OF ws, of w p1 s1 w' p2 s2]
      insert_keeps_counter [OF RTree_insert_returns [OF wt], of rect i d t']
      insert_keeps_counter [OF RStarTree_insert_returns [OF ws], of rect i d s']
    by (simp add: reset_def)
  have r: "node_visits (reset t) = 0 \<and> node_visits (reset s) = 0"
    by (simp add: reset_def)
  show ?thesis
  proof (cases "rtree_state t")
    case True
    from state_wf [OF rtree_state_inv [OF True]] obtain lvl where wt: "wf_lvl lvl t" by blast
    show ?thesis
    proof (cases "rstartree_state s")
      case True
      from state_wf [OF rstartree_state_inv [OF True]] obtain lvl' where "wf_lvl lvl' s"
        by blast
      from base [OF wt this] show ?thesis .
    next
      case False
      with r query_counts [OF wt, of w] query_twice [OF wt, of w o1 t1 w' o2 t2]
        insert_keeps_counter [OF RTree_insert_returns [OF wt], of rect i d t']
      show ?thesis by simp
    qed
  next
    case False
    note nt = False
    show ?thesis
    proof (cases "rstartree_state s")
      case True
      from state_wf [OF rstartree_state_inv [OF True]] obtain lvl' where ws: "wf_lvl lvl' s"
        by blast
      with r nt query_counts [OF ws, of w] query_twice [OF ws, of w p1 s1 w' p2 s2]
        insert_keeps_counter [OF RStarTree_insert_returns [OF ws], of rect i d s']
      show ?thesis by simp
    next
      case False
      with nt r show ?thesis by simp
    qed
  qed
qed

text \<open>
  The hypotheses of C9 hold in the base index and in the reinsertion variant after five
  insertions: the query with the window \<open>(0, 0)-(2, 2)\<close> enters the root and both leaves,
  a second query with the window \<open>(9, 9)-(11, 11)\<close> enters the root only, and the sixth
  insertion leaves the counter at 0.
\<close>

theorem node_visits_counter_witness:
  "rtree_state five_tree \<and>
   range_query five_tree (Rect 0 0 2 2) None
     = Some (Inr ([Data 0 0, Data 1 1, Data 2 2], five_tree\<lparr>node_visits := 3\<rparr>)) \<and>
   nodes_entered (heap five_tree) (Rect 0 0 2 2) (root five_tree) = Some (Inr [2, 0, 1]) \<and>
   range_query (five_tree\<lparr>node_visits := 3\<rparr>) (Rect 9 9 11 11) None
     = Some (Inr ([], five_tree\<lparr>node_visits := 4\<rparr>)) \<and>
   RTree_insert five_tree (Rect 10 10 10 10) (Data 5 5) = Some (Inr six_tree) \<and>
   node_visits six_tree = node_visits five_tree \<and>
   rstartree_state rstar_five \<and>
   range_query rstar_five (Rect 0 0 2 2) None
     = Some (Inr ([Data 1 1, Data 2 2, Data 0 0], rstar_five\<lparr>node_visits := 3\<rparr>)) \<and>
   range_query (rstar_five\<lparr>node_visits := 3\<rparr>) (Rect 9 9 11 11) None
     = Some (Inr ([], rstar_five\<lparr>node_visits := 4\<rparr>)) \<and>
   RStarTree_insert rstar_five (Rect 10 10 10 10) (Data 5 5) = Some (Inr rstar_six) \<and>
   node_visits rstar_six = node_visits rstar_five \<and>
   node_visits (reset (five_tree\<lparr>node_visits := 4\<rparr>)) = 0"
proof -
  have q1: "range_query five_tree (Rect 0 0 2 2) None
     = Some (Inr ([Data 0 0, Data 1 1, Data 2 2], five_tree\<lparr>node_visits := 3\<rparr>))"
    by code_simp
  have n1: "nodes_entered (heap five_tree) (Rect 0 0 2 2) (root five_tree) = Some (Inr [2, 0, 1])"
    by code_simp
  have q2: "range_query (five_tree\<lparr>node_visits := 3\<rparr>) (Rect 9 9 11 11) None
     = Some (Inr ([], five_tree\<lparr>node_visits := 4\<rparr>))"
    by code_simp
  have p1: "range_query rstar_five (Rect 0 0 2 2) None
     = Some (Inr ([Data 1 1, Data 2 2, Data 0 0], rstar_five\<lparr>node_visits := 3\<rparr>))"
    by code_simp
  have p2: "range_query (rstar_five\<lparr>node_visits := 3\<rparr>) (Rect 9 9 11 11) None
     = Some (Inr ([], rstar_five\<lparr>node_visits := 4\<rparr>))"
    by code_simp
  note th = node_visits_counter [of five_tree "Rect 0 0 2 2" "Rect 10 10 10 10" 5 5 six_tree
      "[Data 0 0, Data 1 1, Data 2 2]" "five_tree\<lparr>node_visits := 3\<rparr>" "Rect 9 9 11 11"
      "[]" "five_tree\<lparr>node_visits := 4\<rparr>" rstar_five rstar_six
      "[Data 1 1, Data 2 2, Data 0 0]" "rstar_five\<lparr>node_visits := 3\<rparr>"
      "[]" "rstar_five\<lparr>node_visits := 4\<rparr>"]
  from th five_tree_state five_tree_insert
  have c1: "node_visits six_tree = node_visits five_tree" by blast
  from th rstar_five_state rstar_five_insert
  have c2: "node_visits rstar_six = node_visits rstar_five" by blast
  have r: "node_visits (reset (five_tree\<lparr>node_visits := 4\<rparr>)) = 0"
    by (simp add: reset_def)
  from five_tree_state q1 n1 q2 five_tree_insert c1 rstar_five_state p1 p2 rstar_five_insert c2 r
  show ?thesis by (intro conjI)
qed

end
